theory Spec2Isabelle
  imports
    Complex_Main
    "HOL-Library.Sublist"
    "HOL-Library.Char_ord"
    "HOL-Library.List_Lexorder"
begin

section \<open>Python strings\<close>

text \<open>
  A Python \<open>str\<close> is modelled as a \<open>string\<close>, one \<open>char\<close> for each code point, for
  ASCII text: the case functions below change the letters \<open>A\<close> to \<open>Z\<close> and \<open>a\<close> to \<open>z\<close>
  only and leave every other character as it is, and white space is the ASCII white
  space. Python maps the case of other letters too and knows more white space (such
  as \<open>U+00A0\<close>), so a property that rests on the case mapping is stated for text that
  satisfies \<open>isascii\<close>. \<open>p in s\<close> on two strings is
  \<^const>\<open>sublist\<close> (a contiguous occurrence), \<open><\<close> on strings is the lexicographic
  order by code point.
\<close>

datatype error = ZeroDivisionError | IndexError

definition is_upper :: "char \<Rightarrow> bool" where
  "is_upper c = (CHR ''A'' \<le> c \<and> c \<le> CHR ''Z'')"

definition is_lower :: "char \<Rightarrow> bool" where
  "is_lower c = (CHR ''a'' \<le> c \<and> c \<le> CHR ''z'')"

definition lower_char :: "char \<Rightarrow> char" where
  "lower_char c = (if is_upper c then char_of (of_char c + (32::nat)) else c)"

definition upper_char :: "char \<Rightarrow> char" where
  "upper_char c = (if is_lower c then char_of (of_char c - (32::nat)) else c)"

text \<open>\<open>str.lower()\<close>.\<close>

definition lower :: "string \<Rightarrow> string" where
  "lower s = map lower_char s"

text \<open>\<open>str.isascii()\<close>: every code point is below 128.\<close>

definition isascii :: "string \<Rightarrow> bool" where
  "isascii s = list_all (\<lambda>c. (of_char c :: nat) < 128) s"

text \<open>\<open>str.isspace()\<close> on one ASCII character: tab, line feed, vertical tab, form feed,
  carriage return, the four separators \<open>0x1c\<close> to \<open>0x1f\<close>, and the space.\<close>

definition is_space :: "char \<Rightarrow> bool" where
  "is_space c = (let n = (of_char c :: nat) in (9 \<le> n \<and> n \<le> 13) \<or> (28 \<le> n \<and> n \<le> 32))"

text \<open>\<open>str.strip()\<close> with no argument.\<close>

definition strip :: "string \<Rightarrow> string" where
  "strip s = rev (dropWhile is_space (rev (dropWhile is_space s)))"

text \<open>\<open>str.strip(chars)\<close>.\<close>

definition strip_chars :: "string \<Rightarrow> string \<Rightarrow> string" where
  "strip_chars chars s =
     rev (dropWhile (\<lambda>c. c \<in> set chars) (rev (dropWhile (\<lambda>c. c \<in> set chars) s)))"

text \<open>\<open>s.find(p)\<close>: the lowest index at which \<open>p\<close> occurs in \<open>s\<close>, or \<open>-1\<close>.\<close>

fun find_from :: "string \<Rightarrow> string \<Rightarrow> nat option" where
  "find_from p [] = (if p = [] then Some 0 else None)"
| "find_from p (c # cs) =
     (if prefix p (c # cs) then Some 0
      else (case find_from p cs of None \<Rightarrow> None | Some i \<Rightarrow> Some (Suc i)))"

definition str_find :: "string \<Rightarrow> string \<Rightarrow> int" where
  "str_find s p = (case find_from p s of None \<Rightarrow> - 1 | Some i \<Rightarrow> int i)"

text \<open>\<open>s[i:j]\<close>: a negative bound counts from the end, and both bounds are clipped to the
  string.\<close>

definition slice :: "'a list \<Rightarrow> int \<Rightarrow> int \<Rightarrow> 'a list" where
  "slice xs i j =
     (let n = int (length xs);
          a = (if i < 0 then max 0 (i + n) else min i n);
          b = (if j < 0 then max 0 (j + n) else min j n)
      in take (nat (b - a)) (drop (nat a) xs))"

text \<open>\<open>s.split(sep)\<close> for a separator that is not empty: the pieces between the
  occurrences of \<open>sep\<close>, found from the left, without overlap. There is always at
  least one piece.\<close>

fun split :: "string \<Rightarrow> string \<Rightarrow> string list" where
  "split sep [] = [[]]"
| "split sep (c # cs) =
     (if sep \<noteq> [] \<and> prefix sep (c # cs) then [] # split sep (drop (length sep - 1) cs)
      else (case split sep cs of [] \<Rightarrow> [[c]] | w # ws \<Rightarrow> (c # w) # ws))"

text \<open>\<open>re.split(r',|\|', s)\<close>: the pieces between the characters of a class.\<close>

fun split_any :: "(char \<Rightarrow> bool) \<Rightarrow> string \<Rightarrow> string list" where
  "split_any P [] = [[]]"
| "split_any P (c # cs) =
     (if P c then [] # split_any P cs
      else (case split_any P cs of [] \<Rightarrow> [[c]] | w # ws \<Rightarrow> (c # w) # ws))"

text \<open>\<open>s.split()\<close> with no argument: the maximal runs of characters that are not
  whitespace.\<close>

function split_ws :: "string \<Rightarrow> string list" where
  "split_ws [] = []"
| "split_ws (c # cs) =
     (if is_space c then split_ws cs
      else (c # takeWhile (\<lambda>d. \<not> is_space d) cs)
           # split_ws (dropWhile (\<lambda>d. \<not> is_space d) cs))"
  by pat_completeness auto
termination
  by (relation "measure length") (auto simp: length_dropWhile_le less_Suc_eq_le)

text \<open>\<open>sep.join(xs)\<close>.\<close>

fun join :: "string \<Rightarrow> string list \<Rightarrow> string" where
  "join sep [] = []"
| "join sep [x] = x"
| "join sep (x # y # ys) = x @ sep @ join sep (y # ys)"

text \<open>\<open>s.replace(old, new)\<close> for an \<open>old\<close> that is not empty: every occurrence found from
  the left, without overlap, is replaced.\<close>

fun replace :: "string \<Rightarrow> string \<Rightarrow> string \<Rightarrow> string" where
  "replace old new [] = []"
| "replace old new (c # cs) =
     (if old \<noteq> [] \<and> prefix old (c # cs) then new @ replace old new (drop (length old - 1) cs)
      else c # replace old new cs)"

text \<open>\<open>s.capitalize()\<close>: the first character in upper case, the rest in lower case.\<close>

fun capitalize :: "string \<Rightarrow> string" where
  "capitalize [] = []"
| "capitalize (c # cs) = upper_char c # lower cs"

text \<open>\<open>s.title()\<close>: a letter that follows a letter is put in lower case, every other
  letter in upper case.\<close>

fun title_from :: "bool \<Rightarrow> string \<Rightarrow> string" where
  "title_from prev [] = []"
| "title_from prev (c # cs) =
     (if is_upper c \<or> is_lower c
      then (if prev then lower_char c else upper_char c) # title_from True cs
      else c # title_from False cs)"

definition title :: "string \<Rightarrow> string" where
  "title s = title_from False s"

text \<open>The subscript \<open>xs[i]\<close> on a list, which raises \<open>IndexError\<close> out of range.\<close>

definition subscript :: "'a list \<Rightarrow> nat \<Rightarrow> error + 'a" where
  "subscript xs i = (if i < length xs then Inr (xs ! i) else Inl IndexError)"

section \<open>The mention extractors of \<open>analyze_integrations.py\<close>\<close>

subsection \<open>\<open>extract_integrations\<close> in \<open>load_integration_data\<close>\<close>

definition integration_keywords :: "string list" where
  "integration_keywords =
     [''integrates with'', ''works with'', ''compatible with'', ''connects to'',
      ''sync with'', ''syncs with'', ''integration with'', ''integrated with'',
      ''connect your'', ''connects your'', ''integration for'', ''plugin for'']"

definition platforms :: "string list" where
  "platforms =
     [''Shopify'', ''Facebook'', ''Instagram'', ''Google'', ''TikTok'', ''Twitter'',
      ''Pinterest'', ''WhatsApp'', ''Snapchat'', ''YouTube'', ''Amazon'', ''eBay'',
      ''Etsy'', ''Walmart'', ''Klaviyo'', ''Mailchimp'', ''Zapier'', ''Slack'',
      ''Zendesk'', ''Salesforce'', ''HubSpot'', ''QuickBooks'', ''Xero'', ''PayPal'',
      ''Stripe'', ''Square'', ''Klarna'', ''Affirm'', ''ShipStation'', ''ShipBob'',
      ''FedEx'', ''UPS'', ''USPS'', ''DHL'']"

text \<open>The first loop: for each keyword that occurs, the platforms named in the 100
  characters from its first occurrence on.\<close>

definition platforms_after_keyword :: "string \<Rightarrow> string \<Rightarrow> string list" where
  "platforms_after_keyword details keyword =
     (let details_lower = lower details in
      if sublist (lower keyword) details_lower
      then (let pos = str_find details_lower (lower keyword);
                remaining_text = slice details pos (pos + 100)
            in filter (\<lambda>platform. sublist (lower platform) (lower remaining_text)) platforms)
      else [])"

text \<open>The second loop: a platform that occurs, with a keyword within 50 characters of
  its first occurrence.\<close>

definition platform_in_context :: "string \<Rightarrow> string \<Rightarrow> bool" where
  "platform_in_context details platform =
     (let details_lower = lower details in
      sublist (lower platform) details_lower \<and>
      (let context = slice details_lower
                       (max 0 (str_find details_lower (lower platform) - 50))
                       (min (int (length details_lower))
                            (str_find details_lower (lower platform) + 50))
       in list_ex (\<lambda>keyword. sublist keyword context) integration_keywords))"

text \<open>The argument is \<open>None\<close> for a cell that holds no string (\<open>not isinstance(details,
  str)\<close>). The result is \<open>list(integrations)\<close> of a Python set, whose order is not
  specified: the model lists its elements in the order of their insertion.\<close>

definition extract_integrations :: "string option \<Rightarrow> string list" where
  "extract_integrations details_cell =
     (case details_cell of
        None \<Rightarrow> []
      | Some details \<Rightarrow>
          remdups (concat (map (platforms_after_keyword details) integration_keywords)
                   @ filter (platform_in_context details) platforms))"

subsection \<open>\<open>extract_integrations\<close> in \<open>load_app_data\<close>\<close>

definition app_data_keywords :: "string list" where
  "app_data_keywords =
     [''integrates with'', ''works with'', ''compatible with'',
      ''connects to'', ''syncs with'', ''integration with'']"

text \<open>The body of the loop for one keyword that occurs in the lowered text.\<close>

definition found_after :: "string \<Rightarrow> string \<Rightarrow> error + string list" where
  "found_after details keyword =
     (case subscript (split keyword details) 1 of
        Inl e \<Rightarrow> Inl e
      | Inr rest \<Rightarrow>
          (case subscript (split ''.'' rest) 0 of
             Inl e \<Rightarrow> Inl e
           | Inr text_after \<Rightarrow>
               Inr (filter (\<lambda>i. i \<noteq> [])
                     (map strip (concat (map (split ''and'')
                        (map strip (split '','' text_after))))))))"

fun extend_found :: "string \<Rightarrow> string list \<Rightarrow> string list \<Rightarrow> error + string list" where
  "extend_found details [] integrations = Inr integrations"
| "extend_found details (keyword # keywords) integrations =
     (if sublist keyword details
      then (case found_after details keyword of
              Inl e \<Rightarrow> Inl e
            | Inr found \<Rightarrow> extend_found details keywords (integrations @ found))
      else extend_found details keywords integrations)"

text \<open>Again \<open>list(set(integrations))\<close> is listed in the order of first insertion.\<close>

definition extract_integrations_app_data :: "string \<Rightarrow> error + string list" where
  "extract_integrations_app_data details =
     (case extend_found (lower details) app_data_keywords [] of
        Inl e \<Rightarrow> Inl e
      | Inr integrations \<Rightarrow> Inr (remdups integrations))"

section \<open>The name normalizer of \<open>standardize_integrations.py\<close>\<close>

text \<open>The dictionary \<open>name_mappings\<close>, in the order of its literal, which is the order in
  which a Python dictionary yields its items.\<close>

definition name_mappings :: "(string \<times> string) list" where
  "name_mappings =
     [(''fb'', ''Facebook''), (''facebook'', ''Facebook''), (''ig'', ''Instagram''),
      (''insta'', ''Instagram''), (''instagram'', ''Instagram''), (''whatsapp'', ''WhatsApp''),
      (''wa'', ''WhatsApp''), (''tiktok'', ''TikTok''), (''youtube'', ''YouTube''),
      (''pinterest'', ''Pinterest''),
      (''paypal'', ''PayPal''), (''stripe'', ''Stripe''), (''klarna'', ''Klarna''),
      (''shopify checkout'', ''Shopify Checkout''), (''checkout'', ''Shopify Checkout''),
      (''google analytics'', ''Google Analytics''), (''ga'', ''Google Analytics''),
      (''google ads'', ''Google Ads''), (''klaviyo'', ''Klaviyo''), (''mailchimp'', ''Mailchimp''),
      (''activecampaign'', ''ActiveCampaign''),
      (''ups'', ''UPS''), (''usps'', ''USPS''), (''dhl'', ''DHL''), (''fedex'', ''FedEx''),
      (''amazon'', ''Amazon''), (''ebay'', ''eBay''), (''etsy'', ''Etsy''), (''walmart'', ''Walmart''),
      (''pos'', ''Shopify POS''), (''shopify pos'', ''Shopify POS''), (''flow'', ''Shopify Flow''),
      (''shopify flow'', ''Shopify Flow''),
      (''zendesk'', ''Zendesk''), (''gorgias'', ''Gorgias''), (''intercom'', ''Intercom''),
      (''zapier'', ''Zapier''), (''quickbooks'', ''QuickBooks''), (''xero'', ''Xero''),
      (''hubspot'', ''HubSpot''), (''salesforce'', ''Salesforce''),
      (''chatgpt'', ''ChatGPT''), (''openai'', ''OpenAI''), (''gpt'', ''ChatGPT''),
      (''dropbox'', ''Dropbox''), (''google drive'', ''Google Drive''),
      (''github'', ''GitHub''), (''gitlab'', ''GitLab''), (''bitbucket'', ''Bitbucket''),
      (''customer accounts'', ''Customer Accounts''), (''customer account'', ''Customer Accounts'')]"

text \<open>The words that keep their lower case.\<close>

definition lowercase_words :: "string list" where
  "lowercase_words = [''and'', ''or'', ''in'', ''on'', ''at'', ''to'', ''for'', ''with'', ''by'']"

text \<open>One turn of the loop over the partial matches.\<close>

definition replace_pattern :: "string \<Rightarrow> string \<times> string \<Rightarrow> string" where
  "replace_pattern name item =
     (case item of (pattern, replacement) \<Rightarrow>
        if sublist pattern name then replace pattern replacement name else name)"

definition capitalize_word :: "string \<Rightarrow> string" where
  "capitalize_word word = (if word \<in> set lowercase_words then word else capitalize word)"

definition standardize_integration_name :: "string \<Rightarrow> string" where
  "standardize_integration_name name0 =
     (if name0 = [] then name0
      else (let name = strip (lower name0) in
            case map_of name_mappings name of
              Some standard \<Rightarrow> standard
            | None \<Rightarrow>
                join '' '' (map capitalize_word
                  (split_ws (foldl replace_pattern name name_mappings)))))"

text \<open>
  A Python set does not say in which order it yields its elements. Where the code
  turns a set into a list, or iterates over a set, the order is a parameter \<open>enum\<close> of
  the model: a function that lists the elements of a finite set, each once.
\<close>

definition enumerates :: "(string set \<Rightarrow> string list) \<Rightarrow> bool" where
  "enumerates enum = (\<forall>S. finite S \<longrightarrow> set (enum S) = S \<and> distinct (enum S))"

text \<open>\<open>process_integration_list\<close>: the cell is \<open>None\<close> when it is missing (\<open>pd.isna\<close>) or
  holds no string.\<close>

definition process_integration_list ::
  "(string set \<Rightarrow> string list) \<Rightarrow> string option \<Rightarrow> string list" where
  "process_integration_list enum cell =
     (case cell of
        None \<Rightarrow> []
      | Some integrations \<Rightarrow>
          if integrations = [] then []
          else sort (enum (set (filter (\<lambda>standardized. standardized \<noteq> [])
                 (map standardize_integration_name
                    (split_any (\<lambda>c. c = CHR '','' \<or> c = CHR ''|'') integrations))))))"

section \<open>The app record builder of \<open>analyze_integrations.py\<close>\<close>

definition clean_name_mappings :: "(string \<times> string) list" where
  "clean_name_mappings =
     [(''facebook'', ''Facebook''), (''fb'', ''Facebook''), (''face book'', ''Facebook''),
      (''instagram'', ''Instagram''), (''ig'', ''Instagram''),
      (''google analytics'', ''Google Analytics''), (''ga'', ''Google Analytics''),
      (''shopify pos'', ''Shopify POS''), (''pos'', ''Shopify POS''),
      (''shopify checkout'', ''Shopify Checkout''), (''checkout'', ''Shopify Checkout''),
      (''whatsapp'', ''WhatsApp''), (''wa'', ''WhatsApp''), (''tiktok'', ''TikTok''),
      (''klaviyo'', ''Klaviyo''), (''mailchimp'', ''Mailchimp''),
      (''shopify flow'', ''Shopify Flow''), (''flow'', ''Shopify Flow''),
      (''customer accounts'', ''Customer Accounts''),
      (''judge.me'', ''Judge.me''), (''judgeme'', ''Judge.me''),
      (''zapier'', ''Zapier''), (''slack'', ''Slack''), (''zendesk'', ''Zendesk''),
      (''hubspot'', ''HubSpot''), (''quickbooks'', ''QuickBooks''), (''xero'', ''Xero''),
      (''paypal'', ''PayPal''), (''stripe'', ''Stripe'')]"

definition generic_terms :: "string list" where
  "generic_terms =
     [''all theme support'', ''products'', ''cart'', ''api'', ''mobile'', ''desktop'',
      ''translation apps'', ''review widgets'', ''currency convertors'',
      ''landing page builder'', ''and many more'', ''2048 variants'',
      ''rest api'', ''webhooks'', ''your store'', ''custom integrations'']"

definition clean_integration_name :: "string \<Rightarrow> string" where
  "clean_integration_name name0 =
     (if name0 = [] then []
      else (let name = strip (lower name0) in
            if name \<in> set generic_terms then []
            else (case map_of clean_name_mappings name of
                    Some replacement \<Rightarrow> replacement
                  | None \<Rightarrow> title name)))"

text \<open>\<open>parse_integrations\<close>: the cell is \<open>None\<close> when it is missing or holds no string
  (the \<open>except\<close> branch). The two characters removed are the double and the single quote.\<close>

definition parse_integrations :: "string option \<Rightarrow> string list" where
  "parse_integrations cell =
     (case cell of
        None \<Rightarrow> []
      | Some integrations_str \<Rightarrow>
          (let cleaned = replace [CHR 0x27] [] (replace [CHR 0x22] []
                           (strip_chars ''[]'' integrations_str))
           in filter (\<lambda>item. item \<noteq> []) (map strip (split '','' cleaned))))"

text \<open>The two columns of an input row that the builder reads, \<open>app_details\<close> and
  \<open>integrations\<close>.\<close>

record app_row =
  app_details_col :: "string option"
  integrations_col :: "string option"

text \<open>The column \<open>cleaned_integrations\<close> of one row, after its second assignment.\<close>

definition cleaned_integrations ::
  "(string set \<Rightarrow> string list) \<Rightarrow> app_row \<Rightarrow> string list" where
  "cleaned_integrations enum row =
     (let existing_integrations = parse_integrations (integrations_col row);
          extracted_integrations = extract_integrations (app_details_col row);
          all_integrations = enum (set (existing_integrations @ extracted_integrations));
          cleaned = filter (\<lambda>c. c \<noteq> []) (map clean_integration_name all_integrations)
      in enum (set (filter (\<lambda>i. i \<noteq> []) cleaned)))"

definition load_integration_data ::
  "(string set \<Rightarrow> string list) \<Rightarrow> app_row list \<Rightarrow> (app_row \<times> string list) list" where
  "load_integration_data enum rows = map (\<lambda>row. (row, cleaned_integrations enum row)) rows"

section \<open>The processing step of \<open>process_integrations.py\<close>\<close>

text \<open>This script writes the column \<open>processed_integrations\<close> that the association
  analyzer reads. It has a normalizer of its own, with the same name as the one of
  \<open>standardize_integrations.py\<close>.\<close>

definition SHOPIFY_PRODUCTS :: "(string \<times> string) list" where
  "SHOPIFY_PRODUCTS =
     [(''flow'', ''Shopify Flow''), (''pos'', ''Shopify POS''),
      (''checkout'', ''Shopify Checkout''), (''markets'', ''Shopify Markets''),
      (''shipping'', ''Shopify Shipping''), (''email'', ''Shopify Email''),
      (''forms'', ''Shopify Forms''), (''fulfillment'', ''Shopify Fulfillment''),
      (''payments'', ''Shopify Payments''), (''analytics'', ''Shopify Analytics'')]"

definition name_map :: "(string \<times> string) list" where
  "name_map =
     [(''shopify pos'', ''Shopify POS''), (''point of sale'', ''Shopify POS''),
      (''facebook shop'', ''Facebook Shop''), (''fb shop'', ''Facebook Shop''),
      (''instagram shop'', ''Instagram Shop''), (''ig shop'', ''Instagram Shop''),
      (''google merchant'', ''Google Merchant Center''),
      (''google shopping'', ''Google Merchant Center''),
      (''tiktok shop'', ''TikTok Shop'')]"

definition standardize_integration_name_processing :: "string \<Rightarrow> string" where
  "standardize_integration_name_processing name0 =
     (let name = strip (lower name0) in
      case List.find (\<lambda>(key, standard_name). sublist key name) SHOPIFY_PRODUCTS of
        Some (key, standard_name) \<Rightarrow> standard_name
      | None \<Rightarrow>
          (case map_of name_map name of
             Some standard \<Rightarrow> standard
           | None \<Rightarrow>
               (let words = split_ws name in
                if length words > 0 then join '' '' (map capitalize words) else name)))"

text \<open>The set \<open>processed_integrations\<close> that the loop over one cell builds.\<close>

definition processed_integrations :: "string \<Rightarrow> string set" where
  "processed_integrations integrations =
     set (filter (\<lambda>standardized. standardized \<noteq> [])
            (map standardize_integration_name_processing
               (filter (\<lambda>integration. integration \<noteq> [])
                  (map strip (split '','' integrations)))))"

text \<open>The cell \<open>processed_integrations\<close> of one row: it stays empty for a missing or blank
  cell, else it holds the sorted names, joined by commas.\<close>

definition process_integrations ::
  "(string set \<Rightarrow> string list) \<Rightarrow> string option \<Rightarrow> string" where
  "process_integrations enum cell =
     (case cell of
        None \<Rightarrow> []
      | Some integrations \<Rightarrow>
          if strip integrations = [] then []
          else join '','' (sort (enum (processed_integrations integrations))))"

section \<open>The association analyzer of \<open>analyze_integration_patterns.py\<close>\<close>

text \<open>
  Of the data frame only the column \<open>processed_integrations\<close> is read: one cell for each
  app, \<open>None\<close> for a missing value (\<open>NaN\<close>, which \<open>dropna\<close> and \<open>pd.isna\<close> skip), else the
  names joined by commas. Floating-point numbers are modelled as rationals.
\<close>

type_synonym frame = "string option list"

text \<open>\<open>itertools.combinations(xs, 2)\<close>.\<close>

fun combinations2 :: "'a list \<Rightarrow> ('a \<times> 'a) list" where
  "combinations2 [] = []"
| "combinations2 (x # xs) = map (Pair x) xs @ combinations2 xs"

text \<open>The integration list of one cell, empty for a cell that the loops skip
  (\<open>dropna\<close>, then \<open>if integrations\<close>).\<close>

definition integration_list :: "string option \<Rightarrow> string list" where
  "integration_list cell =
     (case cell of None \<Rightarrow> [] | Some integrations \<Rightarrow>
        if integrations = [] then [] else split '','' integrations)"

definition get_integration_pairs :: "string option \<Rightarrow> (string \<times> string) list" where
  "get_integration_pairs cell =
     (case cell of None \<Rightarrow> [] | Some integrations \<Rightarrow>
        if integrations = [] then [] else combinations2 (sort (split '','' integrations)))"

text \<open>\<open>analyze_integration_frequency\<close>: the value counts of all the names of the
  column, as a map from a name to its count.\<close>

definition all_mentions :: "frame \<Rightarrow> string list" where
  "all_mentions df = concat (map integration_list df)"

definition analyze_integration_frequency :: "frame \<Rightarrow> (string \<rightharpoonup> nat)" where
  "analyze_integration_frequency df =
     (\<lambda>name. if name \<in> set (all_mentions df) then Some (count_list (all_mentions df) name)
             else None)"

text \<open>\<open>pair_counts[pair] += 1\<close> on a \<open>defaultdict(int)\<close>.\<close>

definition increment :: "('k \<rightharpoonup> nat) \<Rightarrow> 'k \<Rightarrow> ('k \<rightharpoonup> nat)" where
  "increment m k = m(k \<mapsto> (case m k of None \<Rightarrow> 1 | Some c \<Rightarrow> c + 1))"

text \<open>The dictionary \<open>pair_counts\<close> that the loop of \<open>analyze_integration_pairs\<close> builds;
  the frame it returns has one row \<open>(integration1, integration2, count)\<close> for each entry.\<close>

definition pair_counts :: "frame \<Rightarrow> ((string \<times> string) \<rightharpoonup> nat)" where
  "pair_counts df = foldl increment Map.empty (concat (map get_integration_pairs df))"

text \<open>
  \<open>analyze_integration_relationships\<close> iterates over a Python set of names, twice, in
  the order \<open>enum\<close> of the set.
\<close>

definition all_integrations :: "frame \<Rightarrow> string set" where
  "all_integrations df = set (all_mentions df)"

text \<open>The inner loop over the apps for one pair: the counters \<open>(together, int1_total,
  int2_total)\<close>.\<close>

definition count_app ::
  "string \<Rightarrow> string \<Rightarrow> nat \<times> nat \<times> nat \<Rightarrow> string option \<Rightarrow> nat \<times> nat \<times> nat" where
  "count_app int1 int2 counters cell =
     (case counters of (together, int1_total, int2_total) \<Rightarrow>
        (case cell of
           None \<Rightarrow> counters
         | Some integrations \<Rightarrow>
             if integrations = [] then counters
             else (let integration_list = split '','' integrations in
                   if int1 \<in> set integration_list
                   then (if int2 \<in> set integration_list
                         then (together + 1, int1_total + 1, int2_total)
                         else (together, int1_total + 1, int2_total))
                   else if int2 \<in> set integration_list
                   then (together, int1_total, int2_total + 1)
                   else counters)))"

definition count_apps :: "frame \<Rightarrow> string \<Rightarrow> string \<Rightarrow> nat \<times> nat \<times> nat" where
  "count_apps df int1 int2 = foldl (count_app int1 int2) (0, 0, 0) df"

text \<open>Python's true division \<open>/\<close>.\<close>

definition divide_py :: "rat \<Rightarrow> rat \<Rightarrow> error + rat" where
  "divide_py a b = (if b = 0 then Inl ZeroDivisionError else Inr (a / b))"

text \<open>\<open>expected_together\<close> for one pair.\<close>

definition expected_together :: "frame \<Rightarrow> string \<Rightarrow> string \<Rightarrow> error + rat" where
  "expected_together df int1 int2 =
     (case count_apps df int1 int2 of (together, int1_total, int2_total) \<Rightarrow>
        let total_apps = length df in
        (case divide_py (of_nat int1_total) (of_nat total_apps) of
           Inl e \<Rightarrow> Inl e
         | Inr p1 \<Rightarrow>
             (case divide_py (of_nat int2_total) (of_nat total_apps) of
                Inl e \<Rightarrow> Inl e
              | Inr p2 \<Rightarrow> Inr (p1 * p2 * of_nat total_apps))))"

text \<open>The value \<open>lift\<close> computed for one pair: \<open>None\<close> when the pair never occurs
  together, so that no lift is computed.\<close>

definition lift :: "frame \<Rightarrow> string \<Rightarrow> string \<Rightarrow> error + rat option" where
  "lift df int1 int2 =
     (case expected_together df int1 int2 of
        Inl e \<Rightarrow> Inl e
      | Inr expected \<Rightarrow>
          (case count_apps df int1 int2 of (together, int1_total, int2_total) \<Rightarrow>
             if together > 0
             then (case divide_py (of_nat together) expected of
                     Inl e \<Rightarrow> Inl e
                   | Inr l \<Rightarrow> Inr (Some l))
             else Inr None))"

text \<open>The first loop, over the pairs: the lists \<open>complementary\<close> and \<open>exclusive\<close>.\<close>

fun co_occurrence_patterns ::
  "frame \<Rightarrow> (string \<times> string) list \<Rightarrow>
   (string \<times> string \<times> rat) list \<times> (string \<times> string \<times> rat) list \<Rightarrow>
   error + (string \<times> string \<times> rat) list \<times> (string \<times> string \<times> rat) list" where
  "co_occurrence_patterns df [] acc = Inr acc"
| "co_occurrence_patterns df ((int1, int2) # pairs) (compl, excl) =
     (case lift df int1 int2 of
        Inl e \<Rightarrow> Inl e
      | Inr None \<Rightarrow> co_occurrence_patterns df pairs (compl, excl)
      | Inr (Some l) \<Rightarrow>
          if l > 2
          then co_occurrence_patterns df pairs (compl @ [(int1, int2, l)], excl)
          else if l < 1 / 2
          then co_occurrence_patterns df pairs (compl, excl @ [(int1, int2, l)])
          else co_occurrence_patterns df pairs (compl, excl))"

text \<open>The second loop, over the integrations: the counters of one integration.\<close>

definition standalone_count :: "frame \<Rightarrow> string \<Rightarrow> nat" where
  "standalone_count df integration =
     length (filter (\<lambda>cell. integration \<in> set (integration_list cell)
                           \<and> length (integration_list cell) = 1) df)"

definition total_count :: "frame \<Rightarrow> string \<Rightarrow> nat" where
  "total_count df integration =
     length (filter (\<lambda>cell. integration \<in> set (integration_list cell)) df)"

definition standalone_ratio :: "frame \<Rightarrow> string \<Rightarrow> rat" where
  "standalone_ratio df integration =
     of_nat (standalone_count df integration) / of_nat (total_count df integration)"

fun standalone_patterns ::
  "frame \<Rightarrow> string list \<Rightarrow> (string \<times> rat) list \<times> (string \<times> rat) list \<Rightarrow>
   (string \<times> rat) list \<times> (string \<times> rat) list" where
  "standalone_patterns df [] acc = acc"
| "standalone_patterns df (integration # integrations) (prim, dep) =
     (if total_count df integration > 0
      then (if standalone_ratio df integration > 1 / 2
            then standalone_patterns df integrations
                   (prim @ [(integration, standalone_ratio df integration)], dep)
            else if standalone_ratio df integration < 1 / 10
            then standalone_patterns df integrations
                   (prim, dep @ [(integration, standalone_ratio df integration)])
            else standalone_patterns df integrations (prim, dep))
      else standalone_patterns df integrations (prim, dep))"

text \<open>The dictionary that is returned, with its four keys \<open>complementary\<close>, \<open>exclusive\<close>,
  \<open>primary\<close> and \<open>dependent\<close>.\<close>

record relationships =
  complementary :: "(string \<times> string \<times> rat) list"
  exclusive :: "(string \<times> string \<times> rat) list"
  primary :: "(string \<times> rat) list"
  dependent_list :: "(string \<times> rat) list"

definition analyze_integration_relationships ::
  "(string set \<Rightarrow> string list) \<Rightarrow> frame \<Rightarrow> error + relationships" where
  "analyze_integration_relationships enum df =
     (case co_occurrence_patterns df (combinations2 (enum (all_integrations df))) ([], []) of
        Inl e \<Rightarrow> Inl e
      | Inr (compl, excl) \<Rightarrow>
          (case standalone_patterns df (enum (all_integrations df)) ([], []) of
             (prim, dep) \<Rightarrow>
               Inr \<lparr>complementary = compl, exclusive = excl,
                    primary = prim, dependent_list = dep\<rparr>))"

text \<open>The lift as the specification words it: \<open>P(a,b) / (P(a) * P(b))\<close> with \<open>P\<close> the share
  of the apps that contain the integrations.\<close>

definition apps_containing :: "frame \<Rightarrow> string list \<Rightarrow> nat" where
  "apps_containing df names =
     length (filter (\<lambda>cell. set names \<subseteq> set (integration_list cell)) df)"

definition prob :: "frame \<Rightarrow> string list \<Rightarrow> rat" where
  "prob df names = of_nat (apps_containing df names) / of_nat (length df)"

definition spec_lift :: "frame \<Rightarrow> string \<Rightarrow> string \<Rightarrow> rat" where
  "spec_lift df a b = prob df [a, b] / (prob df [a] * prob df [b])"

text \<open>The table of the scenario: app1 with Facebook and Stripe, app2 with Facebook; and
  the same table with a third app that has no integrations.\<close>

definition two_apps :: frame where
  "two_apps = [Some ''Facebook,Stripe'', Some ''Facebook'']"

definition three_apps :: frame where
  "three_apps = [Some ''Facebook,Stripe'', Some ''Facebook'', None]"

text \<open>Two ways to list a set: in increasing and in decreasing order.\<close>

definition ascending :: "string set \<Rightarrow> string list" where
  "ascending S = sorted_list_of_set S"

definition descending :: "string set \<Rightarrow> string list" where
  "descending S = rev (sorted_list_of_set S)"

text \<open>The number of apps that contain both integrations, and the pair of names of an
  entry \<open>(int1, int2, lift)\<close>.\<close>

definition apps_with_both :: "frame \<Rightarrow> string \<Rightarrow> string \<Rightarrow> nat" where
  "apps_with_both df a b =
     length (filter (\<lambda>cell. a \<in> set (integration_list cell)
                           \<and> b \<in> set (integration_list cell)) df)"

definition pair_of :: "string \<times> string \<times> rat \<Rightarrow> string \<times> string" where
  "pair_of entry = (case entry of (int1, int2, l) \<Rightarrow> (int1, int2))"

text \<open>An input row for the app record builder.\<close>

text \<open>A cell of a frame holds ASCII text, or it is missing.\<close>

definition ascii_cell :: "string option \<Rightarrow> bool" where
  "ascii_cell cell = (case cell of None \<Rightarrow> True | Some s \<Rightarrow> isascii s)"

definition example_row :: app_row where
  "example_row = \<lparr>app_details_col = Some ''Integrates with Stripe and Facebook.'',
                  integrations_col = Some ''[fb, Klaviyo]''\<rparr>"

section \<open>Notions used in the proofs about the normalizer\<close>

text \<open>
  None of the following is part of the program. The loop over the partial matches
  rewrites a name again and again; what the proofs need is what survives all the
  rewriting. The patterns hold no capital letter, so a capital letter, once a label
  has put it into the name, stays, and so does what stands next to it, unless a later
  label is put right there.
\<close>

text \<open>A text that begins as a label of the table begins: with a capital letter, or with
  \<open>eB\<close>.\<close>

definition vstart :: "string \<Rightarrow> bool" where
  "vstart r =
     (case r of
        [] \<Rightarrow> False
      | c # r' \<Rightarrow> is_upper c \<or> (c = CHR ''e'' \<and> (case r' of [] \<Rightarrow> False | d # _ \<Rightarrow> d = CHR ''B'')))"

text \<open>The text after a capital letter still begins with the rest of its word, up to a
  place where a later label begins.\<close>

fun after_ok :: "string \<Rightarrow> string \<Rightarrow> bool" where
  "after_ok [] r = True"
| "after_ok (c # tail) r =
     (vstart r \<or> (case r of [] \<Rightarrow> False | d # r' \<Rightarrow> d = c \<and> after_ok tail r'))"

text \<open>The capital letter just before a position, if there is one; and the capital
  letters of a label, each with what stands around it in the label: the capital
  before it and the rest of its word.\<close>

definition upper_before :: "string \<Rightarrow> string" where
  "upper_before seen = (if seen \<noteq> [] \<and> is_upper (last seen) then [last seen] else [])"

fun contexts :: "string \<Rightarrow> string \<Rightarrow> (string \<times> char \<times> string) list" where
  "contexts seen [] = []"
| "contexts seen (c # cs) =
     (if is_upper c then [(upper_before seen, c, takeWhile (\<lambda>d. \<not> is_space d) cs)] else [])
     @ contexts (seen @ [c]) cs"

definition label_contexts :: "(string \<times> char \<times> string) list" where
  "label_contexts = concat (map (\<lambda>(pattern, standard). contexts [] standard) name_mappings)"

text \<open>Every capital letter of a name stands in such surroundings.\<close>

definition protected :: "string \<Rightarrow> bool" where
  "protected s =
     (\<forall>a u b. s = a @ u # b \<and> is_upper u \<longrightarrow>
        (\<exists>(pre, u', tail) \<in> set label_contexts. u' = u \<and> suffix pre a \<and> after_ok tail b))"

text \<open>A name without its whitespace; the labels of the table; the result of the last
  step of the normalizer on a list of words; and what the proofs establish of every
  word that reaches that step.\<close>

definition nospace :: "string \<Rightarrow> string" where
  "nospace s = filter (\<lambda>c. \<not> is_space c) s"

definition labels :: "string list" where
  "labels = remdups (map snd name_mappings)"

definition fallback :: "string list \<Rightarrow> string" where
  "fallback ws = join '' '' (map capitalize_word ws)"

definition word_ok :: "string \<Rightarrow> bool" where
  "word_ok w = (w \<noteq> [] \<and> (\<forall>c \<in> set w. \<not> is_space c) \<and>
      (lower w \<in> set lowercase_words \<longrightarrow> w \<in> set lowercase_words))"

text \<open>The labels of the table with their lowered forms, without whitespace and split
  into words (\<open>label_rows_eq\<close> below).\<close>

definition label_rows :: "(string \<times> string \<times> string list) list" where
  "label_rows =
     [(''Facebook'', ''facebook'', [''facebook'']),
      (''Instagram'', ''instagram'', [''instagram'']),
      (''WhatsApp'', ''whatsapp'', [''whatsapp'']),
      (''TikTok'', ''tiktok'', [''tiktok'']),
      (''YouTube'', ''youtube'', [''youtube'']),
      (''Pinterest'', ''pinterest'', [''pinterest'']),
      (''PayPal'', ''paypal'', [''paypal'']),
      (''Stripe'', ''stripe'', [''stripe'']),
      (''Klarna'', ''klarna'', [''klarna'']),
      (''Shopify Checkout'', ''shopifycheckout'', [''shopify'', ''checkout'']),
      (''Google Analytics'', ''googleanalytics'', [''google'', ''analytics'']),
      (''Google Ads'', ''googleads'', [''google'', ''ads'']),
      (''Klaviyo'', ''klaviyo'', [''klaviyo'']),
      (''Mailchimp'', ''mailchimp'', [''mailchimp'']),
      (''ActiveCampaign'', ''activecampaign'', [''activecampaign'']),
      (''UPS'', ''ups'', [''ups'']), (''USPS'', ''usps'', [''usps'']),
      (''DHL'', ''dhl'', [''dhl'']), (''FedEx'', ''fedex'', [''fedex'']),
      (''Amazon'', ''amazon'', [''amazon'']), (''eBay'', ''ebay'', [''ebay'']),
      (''Etsy'', ''etsy'', [''etsy'']),
      (''Walmart'', ''walmart'', [''walmart'']),
      (''Shopify POS'', ''shopifypos'', [''shopify'', ''pos'']),
      (''Shopify Flow'', ''shopifyflow'', [''shopify'', ''flow'']),
      (''Zendesk'', ''zendesk'', [''zendesk'']),
      (''Gorgias'', ''gorgias'', [''gorgias'']),
      (''Intercom'', ''intercom'', [''intercom'']),
      (''Zapier'', ''zapier'', [''zapier'']),
      (''QuickBooks'', ''quickbooks'', [''quickbooks'']),
      (''Xero'', ''xero'', [''xero'']),
      (''HubSpot'', ''hubspot'', [''hubspot'']),
      (''Salesforce'', ''salesforce'', [''salesforce'']),
      (''OpenAI'', ''openai'', [''openai'']),
      (''ChatGPT'', ''chatgpt'', [''chatgpt'']),
      (''Dropbox'', ''dropbox'', [''dropbox'']),
      (''Google Drive'', ''googledrive'', [''google'', ''drive'']),
      (''GitHub'', ''github'', [''github'']),
      (''GitLab'', ''gitlab'', [''gitlab'']),
      (''Bitbucket'', ''bitbucket'', [''bitbucket'']),
      (''Customer Accounts'', ''customeraccounts'', [''customer'', ''accounts''])]"

section \<open>Properties of the mention extractors\<close>

lemma sublist_slice: "sublist (slice xs i j) xs"
proof -
  have "sublist (take n (drop m xs)) xs" for n m
    using sublist_take [of n "drop m xs"] sublist_drop [of m xs]
      sublist_order.dual_order.trans by blast
  then show ?thesis by (simp add: slice_def Let_def)
qed

lemma keywords_lower: "\<forall>keyword \<in> set integration_keywords. lower keyword = keyword"
  by code_simp

lemma platforms_after_keyword_none:
  assumes "\<forall>keyword \<in> set integration_keywords. \<not> sublist keyword (lower details)"
    and "keyword \<in> set integration_keywords"
  shows "platforms_after_keyword details keyword = []"
  using assms keywords_lower by (simp add: platforms_after_keyword_def)

lemma platform_in_context_none:
  assumes "\<forall>keyword \<in> set integration_keywords. \<not> sublist keyword (lower details)"
  shows "\<not> platform_in_context details platform"
proof
  assume "platform_in_context details platform"
  then obtain keyword i j where k: "keyword \<in> set integration_keywords"
    and "sublist keyword (slice (lower details) i j)"
    by (auto simp: platform_in_context_def Let_def list_ex_iff)
  then have "sublist keyword (lower details)"
    using sublist_slice [of "lower details" i j] sublist_order.dual_order.trans by blast
  with assms k show False by blast
qed

text \<open>
  C6. A text in which no trigger phrase of the fixed vocabulary occurs (the text is
  compared in lower case, as the code does) yields the empty list of candidates, and
  so does a cell that holds no text; the extractor is a total function that returns
  a list in either case, it has no error result.
\<close>

theorem extract_integrations_no_trigger:
  "extract_integrations None = [] \<and>
   ((\<forall>keyword \<in> set integration_keywords. \<not> sublist keyword (lower details)) \<longrightarrow>
      extract_integrations (Some details) = [])"
proof (intro conjI impI)
  show "extract_integrations None = []"
    by (simp add: extract_integrations_def)
next
  assume none: "\<forall>keyword \<in> set integration_keywords. \<not> sublist keyword (lower details)"
  have "concat (map (platforms_after_keyword details) integration_keywords) = []"
    using platforms_after_keyword_none [OF none] by simp
  moreover have "filter (platform_in_context details) platforms = []"
    using platform_in_context_none [OF none] by simp
  ultimately show "extract_integrations (Some details) = []"
    by (simp add: extract_integrations_def)
qed

theorem extract_integrations_no_trigger_witness:
  "list_all (\<lambda>keyword. \<not> sublist keyword (lower ''Sells shoes for Facebook fans.''))
     integration_keywords \<and>
   extract_integrations (Some ''Sells shoes for Facebook fans.'') = []"
proof -
  have h: "\<forall>keyword \<in> set integration_keywords.
      \<not> sublist keyword (lower ''Sells shoes for Facebook fans.'')"
    by code_simp
  have "extract_integrations (Some ''Sells shoes for Facebook fans.'') = []"
    using h extract_integrations_no_trigger [of "''Sells shoes for Facebook fans.''"]
    by blast
  moreover have "list_all (\<lambda>keyword. \<not> sublist keyword (lower ''Sells shoes for Facebook fans.''))
     integration_keywords"
    using h by (simp only: list_all_iff)
  ultimately show ?thesis by simp
qed

lemma set_platforms_after_keyword:
  "set (platforms_after_keyword details keyword) \<subseteq> set platforms"
  by (auto simp: platforms_after_keyword_def Let_def)

text \<open>
  C10, as amended. Every candidate that \<open>extract_integrations\<close> of
  \<open>load_integration_data\<close> returns is one of the names of its hard-coded list
  \<open>platforms\<close>, and that list holds 34 names, all different.
\<close>

theorem extract_integrations_closed_list:
  "set (extract_integrations cell) \<subseteq> set platforms \<and>
   length platforms = 34 \<and> distinct platforms"
proof (intro conjI)
  show "set (extract_integrations cell) \<subseteq> set platforms"
    using set_platforms_after_keyword
    by (cases cell) (auto simp: extract_integrations_def)
  show "length platforms = 34"
    by (simp add: platforms_def)
  show "distinct platforms"
    by code_simp
qed

text \<open>The list of platforms does not hold 36 names.\<close>

theorem platforms_not_36: "length platforms \<noteq> 36"
  by (simp add: platforms_def)

text \<open>
  C2. Neither extractor of \<open>analyze_integrations.py\<close> looks for a negation: on a
  text whose only trigger phrase is negated, the name that follows the trigger is
  returned by both.
\<close>

theorem negated_trigger_is_extracted:
  "extract_integrations (Some ''Not compatible with Facebook.'') = [''Facebook''] \<and>
   extract_integrations_app_data ''Not compatible with Facebook.'' = Inr [''facebook'']"
  by code_simp

section \<open>Properties of the association analyzer\<close>

text \<open>
  C1. On the table of two apps the lift computed for the pair taken as (Stripe,
  Facebook) is 2, where \<open>P(a,b) / (P(a) * P(b))\<close> is 1; for the same pair taken as
  (Facebook, Stripe) the division raises \<open>ZeroDivisionError\<close>; and with a third app
  that has no integrations the analyzer reports (Stripe, Facebook) as complementary
  with lift 3, where \<open>P(a,b) / (P(a) * P(b))\<close> is 3/2.
\<close>

theorem lift_differs_from_formula:
  "lift two_apps ''Stripe'' ''Facebook'' = Inr (Some 2) \<and>
   spec_lift two_apps ''Stripe'' ''Facebook'' = 1 \<and>
   lift two_apps ''Facebook'' ''Stripe'' = Inl ZeroDivisionError \<and>
   analyze_integration_relationships descending three_apps =
     Inr \<lparr>complementary = [(''Stripe'', ''Facebook'', 3)], exclusive = [],
          primary = [], dependent_list = [(''Stripe'', 0)]\<rparr> \<and>
   spec_lift three_apps ''Stripe'' ''Facebook'' = 3 / 2"
  by code_simp

text \<open>
  C4. On the table of two apps, when the set of integrations yields Facebook before
  Stripe, the analyzer stops with \<open>ZeroDivisionError\<close> at the pair (Facebook, Stripe).
\<close>

theorem two_apps_zero_division:
  "ascending (all_integrations two_apps) = [''Facebook'', ''Stripe''] \<and>
   analyze_integration_relationships ascending two_apps = Inl ZeroDivisionError"
  by code_simp

text \<open>The rest of the scenario: the frequencies, the pair count, and the result when
  the set yields Stripe before Facebook.\<close>

lemma two_apps_frequency_and_pairs:
  "analyze_integration_frequency two_apps ''Facebook'' = Some 2 \<and>
   analyze_integration_frequency two_apps ''Stripe'' = Some 1 \<and>
   pair_counts two_apps (''Facebook'', ''Stripe'') = Some 1"
  by code_simp

lemma two_apps_descending:
  "descending (all_integrations two_apps) = [''Stripe'', ''Facebook''] \<and>
   lift two_apps ''Stripe'' ''Facebook'' = Inr (Some 2) \<and>
   analyze_integration_relationships descending two_apps =
     Inr \<lparr>complementary = [], exclusive = [],
          primary = [], dependent_list = [(''Stripe'', 0)]\<rparr>"
  by code_simp

lemma standalone_count_le: "standalone_count df x \<le> total_count df x"
proof -
  have "length (filter (\<lambda>c. A c \<and> B c) xs) \<le> length (filter A xs)"
    for A B :: "string option \<Rightarrow> bool" and xs
    by (induction xs) auto
  then show ?thesis by (simp add: standalone_count_def total_count_def)
qed

lemma standalone_ratio_bounds:
  assumes "0 < total_count df x"
  shows "0 \<le> standalone_ratio df x \<and> standalone_ratio df x \<le> 1"
proof -
  have "(of_nat (standalone_count df x) :: rat) \<le> of_nat (total_count df x)"
    using standalone_count_le [of df x] by (simp only: of_nat_le_iff)
  moreover have "(0::rat) < of_nat (total_count df x)"
    using assms by simp
  ultimately show ?thesis
    by (simp add: standalone_ratio_def)
qed

lemma standalone_patterns_sound:
  "standalone_patterns df xs (p, d) = (p', d') \<Longrightarrow> (y, r) \<in> set p' \<union> set d' \<Longrightarrow>
   (y, r) \<in> set p \<union> set d \<or> (0 < total_count df y \<and> r = standalone_ratio df y)"
proof (induction xs arbitrary: p d)
  case Nil
  then show ?case by simp
next
  case (Cons a xs)
  show ?case
    using Cons.prems Cons.IH [of "p @ [(a, standalone_ratio df a)]" d]
      Cons.IH [of p "d @ [(a, standalone_ratio df a)]"] Cons.IH [of p d]
    by (auto split: if_splits)
qed

text \<open>
  C5. Whenever the number of apps that contain an integration is positive, its
  standalone ratio lies between 0 and 1; and every entry of the lists \<open>primary\<close> and
  \<open>dependent\<close> that the analyzer returns is an integration contained in at least one
  app, paired with its standalone ratio: the ratio is computed under the guard
  \<open>total_count > 0\<close> only.
\<close>

theorem standalone_ratio_guarded:
  "(0 < total_count df x \<longrightarrow> 0 \<le> standalone_ratio df x \<and> standalone_ratio df x \<le> 1) \<and>
   (analyze_integration_relationships enum df = Inr rel \<longrightarrow>
      (\<forall>(y, r) \<in> set (primary rel) \<union> set (dependent_list rel).
         0 < total_count df y \<and> r = standalone_ratio df y \<and> 0 \<le> r \<and> r \<le> 1))"
proof (intro conjI impI)
  assume "0 < total_count df x"
  then show "0 \<le> standalone_ratio df x" "standalone_ratio df x \<le> 1"
    using standalone_ratio_bounds by blast+
next
  assume ok: "analyze_integration_relationships enum df = Inr rel"
  obtain p d where pd: "standalone_patterns df (enum (all_integrations df)) ([], []) = (p, d)"
    by (cases "standalone_patterns df (enum (all_integrations df)) ([], [])") blast
  from ok pd have "primary rel = p" "dependent_list rel = d"
    by (auto simp: analyze_integration_relationships_def split: sum.splits prod.splits)
  then show "\<forall>(y, r) \<in> set (primary rel) \<union> set (dependent_list rel).
         0 < total_count df y \<and> r = standalone_ratio df y \<and> 0 \<le> r \<and> r \<le> 1"
    using standalone_patterns_sound [OF pd] standalone_ratio_bounds by fastforce
qed

theorem standalone_ratio_guarded_witness:
  "0 < total_count three_apps ''Stripe'' \<and>
   analyze_integration_relationships descending three_apps =
     Inr \<lparr>complementary = [(''Stripe'', ''Facebook'', 3)], exclusive = [],
          primary = [], dependent_list = [(''Stripe'', 0)]\<rparr> \<and>
   0 \<le> standalone_ratio three_apps ''Stripe'' \<and> standalone_ratio three_apps ''Stripe'' \<le> 1 \<and>
   (0::rat) = standalone_ratio three_apps ''Stripe''"
proof -
  have h1: "0 < total_count three_apps ''Stripe''"
    by code_simp
  have h2: "analyze_integration_relationships descending three_apps =
     Inr \<lparr>complementary = [(''Stripe'', ''Facebook'', 3)], exclusive = [],
          primary = [], dependent_list = [(''Stripe'', 0)]\<rparr>"
    by code_simp
  show ?thesis
    using h1 h2
      standalone_ratio_guarded [of three_apps "''Stripe''" descending
        "\<lparr>complementary = [(''Stripe'', ''Facebook'', 3)], exclusive = [],
          primary = [], dependent_list = [(''Stripe'', 0)]\<rparr>"]
    by simp
qed

lemma foldl_increment:
  "foldl increment m ps k =
     (if k \<in> set ps then Some (count_list ps k + (case m k of None \<Rightarrow> 0 | Some c \<Rightarrow> c))
      else m k)"
  by (induction ps arbitrary: m) (auto simp: increment_def split: option.splits)

lemma pair_counts_eq:
  "pair_counts df k =
     (if k \<in> set (concat (map get_integration_pairs df))
      then Some (count_list (concat (map get_integration_pairs df)) k) else None)"
  by (simp add: pair_counts_def foldl_increment)

lemma set_combinations2_sorted:
  "sorted xs \<Longrightarrow> distinct xs \<Longrightarrow>
   (a, b) \<in> set (combinations2 xs) \<longleftrightarrow> a \<in> set xs \<and> b \<in> set xs \<and> a < b"
  by (induction xs) (auto simp: less_le)

lemma combinations2_subset:
  "(a, b) \<in> set (combinations2 xs) \<Longrightarrow> a \<in> set xs \<and> b \<in> set xs"
  by (induction xs) auto

lemma distinct_combinations2: "distinct xs \<Longrightarrow> distinct (combinations2 xs)"
  by (induction xs) (auto simp: distinct_map inj_on_def dest: combinations2_subset)

lemma combinations2_once:
  "distinct xs \<Longrightarrow> (a, b) \<in> set (combinations2 xs) \<Longrightarrow>
   a \<noteq> b \<and> (b, a) \<notin> set (combinations2 xs)"
  by (induction xs) (auto dest: combinations2_subset)

lemma combinations2_all:
  "a \<in> set xs \<Longrightarrow> b \<in> set xs \<Longrightarrow> a \<noteq> b \<Longrightarrow>
   (a, b) \<in> set (combinations2 xs) \<or> (b, a) \<in> set (combinations2 xs)"
  by (induction xs) auto

lemma count_list_distinct:
  "distinct xs \<Longrightarrow> count_list xs k = (if k \<in> set xs then 1 else 0)"
  by (induction xs) auto

lemma get_integration_pairs_sort:
  "get_integration_pairs cell = combinations2 (sort (integration_list cell))"
  by (auto simp: get_integration_pairs_def integration_list_def split: option.splits)

lemma count_pairs_cell:
  assumes "distinct (integration_list cell)" and "a < b"
  shows "count_list (get_integration_pairs cell) (a, b) =
     (if a \<in> set (integration_list cell) \<and> b \<in> set (integration_list cell) then 1 else 0)"
proof -
  let ?xs = "sort (integration_list cell)"
  have d: "distinct ?xs" and s: "sorted ?xs" using assms by simp_all
  have "distinct (combinations2 ?xs)" using d by (rule distinct_combinations2)
  then have "count_list (combinations2 ?xs) (a, b)
      = (if (a, b) \<in> set (combinations2 ?xs) then 1 else 0)"
    by (rule count_list_distinct)
  then show ?thesis
    using set_combinations2_sorted [OF s d, of a b] assms
    by (simp add: get_integration_pairs_sort)
qed

lemma count_pairs_frame:
  assumes "\<forall>cell \<in> set df. distinct (integration_list cell)" and "a < b"
  shows "count_list (concat (map get_integration_pairs df)) (a, b) = apps_with_both df a b"
  using assms(1)
proof (induction df)
  case Nil
  then show ?case by (simp add: apps_with_both_def)
next
  case (Cons cell df)
  then show ?case
    using count_pairs_cell [of cell a b] assms(2)
    by (simp add: apps_with_both_def)
qed

lemma pairs_frame_less:
  assumes "\<forall>cell \<in> set df. distinct (integration_list cell)"
    and "(a, b) \<in> set (concat (map get_integration_pairs df))"
  shows "a < b"
proof -
  from assms(2) obtain cell where c: "cell \<in> set df"
    and "(a, b) \<in> set (combinations2 (sort (integration_list cell)))"
    by (auto simp: get_integration_pairs_sort)
  moreover have "distinct (sort (integration_list cell))" "sorted (sort (integration_list cell))"
    using assms(1) c by simp_all
  ultimately show ?thesis
    using set_combinations2_sorted by blast
qed

lemma pair_counts_distinct_rows:
  assumes "\<forall>cell \<in> set df. distinct (integration_list cell)"
  shows "pair_counts df (a, b) =
     (if a < b \<and> 0 < apps_with_both df a b then Some (apps_with_both df a b) else None)"
proof (cases "a < b")
  case True
  then have "count_list (concat (map get_integration_pairs df)) (a, b) = apps_with_both df a b"
    using assms count_pairs_frame by blast
  then show ?thesis
    using True count_list_0_iff [of "concat (map get_integration_pairs df)" "(a, b)"]
    by (auto simp: pair_counts_eq)
next
  case False
  then have "(a, b) \<notin> set (concat (map get_integration_pairs df))"
    using assms pairs_frame_less by blast
  with False show ?thesis by (simp add: pair_counts_eq)
qed

lemma pair_of_triple: "pair_of (int1, int2, l) = (int1, int2)"
  by (simp add: pair_of_def)

lemma co_occurrence_patterns_keys:
  "co_occurrence_patterns df pairs (c, e) = Inr (c', e') \<Longrightarrow>
   distinct (map pair_of (c @ e) @ pairs) \<Longrightarrow>
   distinct (map pair_of (c' @ e')) \<and>
   set (map pair_of (c' @ e')) \<subseteq> set (map pair_of (c @ e)) \<union> set pairs"
proof (induction pairs arbitrary: c e)
  case Nil
  then show ?case by simp
next
  case (Cons p pairs)
  obtain int1 int2 where p: "p = (int1, int2)" by (cases p)
  show ?case
  proof (cases "lift df int1 int2")
    case (Inl err)
    with Cons.prems p show ?thesis by simp
  next
    case (Inr r)
    show ?thesis
    proof (cases r)
      case None
      with Inr Cons.prems p Cons.IH [of c e] show ?thesis by auto
    next
      case (Some l)
      have d1: "distinct (map pair_of ((c @ [(int1, int2, l)]) @ e) @ pairs)"
        using Cons.prems(2) p by (auto simp: pair_of_triple)
      have d2: "distinct (map pair_of (c @ (e @ [(int1, int2, l)])) @ pairs)"
        using Cons.prems(2) p by (auto simp: pair_of_triple)
      have d3: "distinct (map pair_of (c @ e) @ pairs)"
        using Cons.prems(2) by auto
      show ?thesis
        using Cons.prems(1) p Inr Some
          Cons.IH [of "c @ [(int1, int2, l)]" e, OF _ d1]
          Cons.IH [of c "e @ [(int1, int2, l)]", OF _ d2]
          Cons.IH [of c e, OF _ d3]
        by (auto simp: pair_of_triple split: if_splits)
    qed
  qed
qed

lemma enumerates_set: "enumerates e \<Longrightarrow> finite S \<Longrightarrow> set (e S) = S"
  by (simp add: enumerates_def)

lemma enumerates_distinct: "enumerates e \<Longrightarrow> finite S \<Longrightarrow> distinct (e S)"
  by (simp add: enumerates_def)

lemma enumerates_ascending: "enumerates ascending"
  by (simp add: enumerates_def ascending_def)

lemma enumerates_descending: "enumerates descending"
  by (simp add: enumerates_def descending_def)

text \<open>
  C8, as amended. On a table whose rows name each integration at most once, the
  co-occurrence counts have a key \<open>(a, b)\<close> only for \<open>a < b\<close> in the lexicographic
  order, and the count under that key is the number of apps that contain both names,
  each app counted once. The lists \<open>complementary\<close> and \<open>exclusive\<close> hold each
  unordered pair of different names at most once, never in both orientations; the
  orientation of a pair there is the order in which the set of integrations yields
  its elements, not the lexicographic one.
\<close>

theorem pair_statistics_once:
  assumes "enumerates enum" and "\<forall>cell \<in> set df. distinct (integration_list cell)"
  shows "pair_counts df (a, b) =
           (if a < b \<and> 0 < apps_with_both df a b then Some (apps_with_both df a b) else None) \<and>
         (analyze_integration_relationships enum df = Inr rel \<longrightarrow>
            distinct (map pair_of (complementary rel @ exclusive rel)) \<and>
            (\<forall>(x, y) \<in> set (map pair_of (complementary rel @ exclusive rel)).
               x \<noteq> y \<and> (y, x) \<notin> set (map pair_of (complementary rel @ exclusive rel))))"
proof (intro conjI impI)
  show "pair_counts df (a, b) =
           (if a < b \<and> 0 < apps_with_both df a b then Some (apps_with_both df a b) else None)"
    using assms(2) by (rule pair_counts_distinct_rows)
next
  assume ok: "analyze_integration_relationships enum df = Inr rel"
  let ?names = "enum (all_integrations df)"
  have d: "distinct ?names"
    using assms(1) by (rule enumerates_distinct) (simp add: all_integrations_def)
  obtain c e where ce: "co_occurrence_patterns df (combinations2 ?names) ([], []) = Inr (c, e)"
    using ok by (auto simp: analyze_integration_relationships_def split: sum.splits)
  with ok have rel: "complementary rel = c" "exclusive rel = e"
    by (auto simp: analyze_integration_relationships_def split: prod.splits)
  have keys: "distinct (map pair_of (c @ e))"
    "set (map pair_of (c @ e)) \<subseteq> set (combinations2 ?names)"
    using co_occurrence_patterns_keys [OF ce] distinct_combinations2 [OF d] by auto
  then show "distinct (map pair_of (complementary rel @ exclusive rel))"
    unfolding rel by simp
  show "\<forall>(x, y) \<in> set (map pair_of (complementary rel @ exclusive rel)).
            x \<noteq> y \<and> (y, x) \<notin> set (map pair_of (complementary rel @ exclusive rel))"
    unfolding rel using keys combinations2_once [OF d] by blast
qed

theorem pair_statistics_once_witness:
  "pair_counts three_apps (''Facebook'', ''Stripe'') = Some 1 \<and>
   pair_counts three_apps (''Stripe'', ''Facebook'') = None \<and>
   distinct (map pair_of [(''Stripe'', ''Facebook'', 3)]) \<and>
   (''Facebook'', ''Stripe'') \<notin> set (map pair_of [(''Stripe'', ''Facebook'', 3)])"
proof -
  have rows: "\<forall>cell \<in> set three_apps. distinct (integration_list cell)"
    by code_simp
  have run: "analyze_integration_relationships descending three_apps =
     Inr \<lparr>complementary = [(''Stripe'', ''Facebook'', 3)], exclusive = [],
          primary = [], dependent_list = [(''Stripe'', 0)]\<rparr>"
    by code_simp
  have less: "''Facebook'' < ''Stripe''" "\<not> ''Stripe'' < ''Facebook''"
    by code_simp+
  have both: "apps_with_both three_apps ''Facebook'' ''Stripe'' = 1"
    by code_simp
  have "pair_counts three_apps (''Facebook'', ''Stripe'') = Some 1"
    using pair_statistics_once [OF enumerates_descending rows, of "''Facebook''" "''Stripe''"]
      less both by simp
  moreover have "pair_counts three_apps (''Stripe'', ''Facebook'') = None"
    using pair_statistics_once [OF enumerates_descending rows, of "''Stripe''" "''Facebook''"]
      less by simp
  moreover have "distinct (map pair_of [(''Stripe'', ''Facebook'', 3)]) \<and>
     (''Facebook'', ''Stripe'') \<notin> set (map pair_of [(''Stripe'', ''Facebook'', 3)])"
    using pair_statistics_once [OF enumerates_descending rows, of "''Stripe''" "''Facebook''"
        "\<lparr>complementary = [(''Stripe'', ''Facebook'', 3)], exclusive = [],
          primary = [], dependent_list = [(''Stripe'', 0)]\<rparr>"] run
    by (simp add: pair_of_triple)
  ultimately show ?thesis by simp
qed

text \<open>With the set listed in decreasing order, the analyzer reports the pair as
  (Stripe, Facebook), and Stripe is not below Facebook.\<close>

theorem complementary_pair_not_ordered:
  "enumerates descending \<and>
   analyze_integration_relationships descending three_apps =
     Inr \<lparr>complementary = [(''Stripe'', ''Facebook'', 3)], exclusive = [],
          primary = [], dependent_list = [(''Stripe'', 0)]\<rparr> \<and>
   \<not> ''Stripe'' < ''Facebook''"
proof -
  have "analyze_integration_relationships descending three_apps =
     Inr \<lparr>complementary = [(''Stripe'', ''Facebook'', 3)], exclusive = [],
          primary = [], dependent_list = [(''Stripe'', 0)]\<rparr>"
    by code_simp
  moreover have "\<not> ''Stripe'' < ''Facebook''"
    by code_simp
  ultimately show ?thesis
    using enumerates_descending by simp
qed

section \<open>Properties of the normalization\<close>

lemma labels_fixed:
  "list_all (\<lambda>(pattern, standard). standardize_integration_name standard = standard)
     name_mappings"
  by code_simp

lemma empty_not_alias: "map_of name_mappings [] = None"
  by code_simp

text \<open>
  C3, as amended. For every raw candidate that the alias table resolves by an exact
  match (its lowered, trimmed form is a key of \<open>name_mappings\<close>), normalizing twice
  gives what normalizing once gives: every label of the table is a fixed point of
  the normalizer.
\<close>

theorem standardize_idempotent_on_aliases:
  assumes "strip (lower x) \<in> set (map fst name_mappings)"
  shows "standardize_integration_name (standardize_integration_name x)
         = standardize_integration_name x"
proof -
  from assms obtain v where v: "map_of name_mappings (strip (lower x)) = Some v"
    by (cases "map_of name_mappings (strip (lower x))") (auto simp: map_of_eq_None_iff)
  then have "(strip (lower x), v) \<in> set name_mappings"
    by (rule map_of_SomeD)
  then have fixed: "standardize_integration_name v = v"
    using labels_fixed by (auto simp: list_all_iff)
  have "x \<noteq> []"
    using v empty_not_alias by (auto simp: strip_def lower_def)
  then have "standardize_integration_name x = v"
    using v by (simp add: standardize_integration_name_def)
  with fixed show ?thesis by simp
qed

theorem standardize_idempotent_on_aliases_witness:
  "standardize_integration_name ''FB'' = ''Facebook'' \<and>
   standardize_integration_name (standardize_integration_name ''FB'')
     = standardize_integration_name ''FB''"
proof -
  have "strip (lower ''FB'') \<in> set (map fst name_mappings)"
    by code_simp
  then have "standardize_integration_name (standardize_integration_name ''FB'')
     = standardize_integration_name ''FB''"
    by (rule standardize_idempotent_on_aliases)
  moreover have "standardize_integration_name ''FB'' = ''Facebook''"
    by code_simp
  ultimately show ?thesis by simp
qed

text \<open>A candidate that is resolved by substring replacement: \<open>pos x\<close> becomes
  \<open>Shopify Pos X\<close>, and that becomes \<open>Shopify Shopify Pos X\<close>.\<close>

theorem standardize_not_idempotent:
  "standardize_integration_name ''pos x'' = ''Shopify Pos X'' \<and>
   standardize_integration_name (standardize_integration_name ''pos x'')
     = ''Shopify Shopify Pos X'' \<and>
   standardize_integration_name (standardize_integration_name ''pos x'')
     \<noteq> standardize_integration_name ''pos x''"
  by code_simp

lemma enumerates_sort:
  assumes "enumerates e" and "finite S"
  shows "sort (e S) = sorted_list_of_set S"
  by (metis assms enumerates_set enumerates_distinct remdups_id_iff_distinct
      sorted_list_of_set_sort_remdups)

lemma set_cleaned_integrations:
  assumes "enumerates e"
  shows "set (cleaned_integrations e row) =
     clean_integration_name `
       (set (parse_integrations (integrations_col row))
        \<union> set (extract_integrations (app_details_col row))) - {[]}"
proof -
  let ?raw = "parse_integrations (integrations_col row)
              @ extract_integrations (app_details_col row)"
  have 1: "set (e (set ?raw)) = set ?raw"
    using assms by (rule enumerates_set) simp
  let ?cleaned = "filter (\<lambda>c. c \<noteq> []) (map clean_integration_name (e (set ?raw)))"
  have 2: "set (e (set (filter (\<lambda>i. i \<noteq> []) ?cleaned)))
      = set (filter (\<lambda>i. i \<noteq> []) ?cleaned)"
    using assms by (rule enumerates_set) simp
  have "set (cleaned_integrations e row) = set (filter (\<lambda>i. i \<noteq> []) ?cleaned)"
    unfolding cleaned_integrations_def Let_def using 2 by simp
  also have "\<dots> = clean_integration_name ` set ?raw - {[]}"
    using 1 by auto
  finally show ?thesis by simp
qed

text \<open>
  C9. The normalizers are functions of the input string alone: their tables are
  constants and they read no state. The only source of variation in the code is the
  order in which a Python set yields its elements, and the result does not depend
  on it: for any two ways \<open>enum1\<close>, \<open>enum2\<close> to list a set, building the table from the
  same rows gives the same canonical integration set for every app, and
  \<open>process_integration_list\<close> gives the same sorted list.
\<close>

theorem normalization_deterministic:
  assumes "enumerates enum1" and "enumerates enum2"
  shows "map (\<lambda>(row, names). set names) (load_integration_data enum1 rows)
         = map (\<lambda>(row, names). set names) (load_integration_data enum2 rows) \<and>
         process_integration_list enum1 cell = process_integration_list enum2 cell"
proof
  show "map (\<lambda>(row, names). set names) (load_integration_data enum1 rows)
         = map (\<lambda>(row, names). set names) (load_integration_data enum2 rows)"
    using assms by (simp add: load_integration_data_def set_cleaned_integrations)
  show "process_integration_list enum1 cell = process_integration_list enum2 cell"
    using assms by (simp add: process_integration_list_def enumerates_sort split: option.splits)
qed

theorem normalization_deterministic_witness:
  "cleaned_integrations ascending example_row = [''Facebook'', ''Klaviyo'', ''Stripe''] \<and>
   cleaned_integrations descending example_row = [''Stripe'', ''Klaviyo'', ''Facebook''] \<and>
   map (\<lambda>(row, names). set names) (load_integration_data ascending [example_row])
     = map (\<lambda>(row, names). set names) (load_integration_data descending [example_row]) \<and>
   process_integration_list ascending (Some ''fb,Stripe|FB'')
     = process_integration_list descending (Some ''fb,Stripe|FB'')"
proof -
  have "cleaned_integrations ascending example_row = [''Facebook'', ''Klaviyo'', ''Stripe'']"
    by code_simp
  moreover have
    "cleaned_integrations descending example_row = [''Stripe'', ''Klaviyo'', ''Facebook'']"
    by code_simp
  ultimately show ?thesis
    using normalization_deterministic [OF enumerates_ascending enumerates_descending,
        of "[example_row]" "Some ''fb,Stripe|FB''"]
    by simp
qed

section \<open>Character and string lemmas\<close>

lemma is_upper_iff: "is_upper c \<longleftrightarrow> 65 \<le> (of_char c :: nat) \<and> (of_char c :: nat) \<le> 90"
  by (simp add: is_upper_def less_eq_char_def)

lemma is_lower_iff: "is_lower c \<longleftrightarrow> 97 \<le> (of_char c :: nat) \<and> (of_char c :: nat) \<le> 122"
  by (simp add: is_lower_def less_eq_char_def)

lemma of_char_lower_char:
  "(of_char (lower_char c) :: nat) = (if is_upper c then of_char c + 32 else of_char c)"
  by (auto simp: lower_char_def is_upper_iff)

lemma of_char_upper_char:
  "(of_char (upper_char c) :: nat) = (if is_lower c then of_char c - 32 else of_char c)"
  by (auto simp: upper_char_def is_lower_iff)

lemma not_upper_lower_char: "\<not> is_upper (lower_char c)"
  by (simp add: is_upper_iff [of "lower_char c"] of_char_lower_char) (simp add: is_upper_iff)

lemma lower_char_idem: "lower_char (lower_char c) = lower_char c"
  using not_upper_lower_char [of c] by (simp add: lower_char_def [of "lower_char c"])

lemma lower_char_upper_char: "lower_char (upper_char c) = lower_char c"
proof (cases "is_lower c")
  case True
  then have u: "is_upper (upper_char c)"
    unfolding is_upper_iff [of "upper_char c"] of_char_upper_char is_lower_iff by auto
  have "\<not> is_upper c" using True by (simp add: is_upper_iff is_lower_iff)
  then have "lower_char c = c" by (simp add: lower_char_def)
  moreover have "(of_char (lower_char (upper_char c)) :: nat) = of_char c"
    using u True by (simp add: of_char_lower_char of_char_upper_char is_lower_iff)
  then have "lower_char (upper_char c) = c"
    by (simp only: of_char_eq_iff)
  ultimately show ?thesis by simp
next
  case False
  then show ?thesis by (simp add: upper_char_def)
qed

lemma lower_idem: "lower (lower s) = lower s"
  by (simp add: lower_def lower_char_idem)

lemma lower_title_from: "lower (title_from prev s) = lower s"
  by (induction s arbitrary: prev) (auto simp: lower_def lower_char_idem lower_char_upper_char)

lemma lower_title: "lower (title s) = lower s"
  by (simp add: title_def lower_title_from)

lemma set_strip: "set (strip s) \<subseteq> set s"
  unfolding strip_def
  by (metis set_dropWhileD set_rev subsetI)

lemma lower_fixed_subset:
  assumes "lower s = s" and "set t \<subseteq> set s"
  shows "lower t = t"
proof -
  have "\<forall>c \<in> set s. lower_char c = c"
    using assms(1) unfolding lower_def by (simp add: map_eq_conv [where g = "\<lambda>x. x", simplified] )
  then show ?thesis using assms(2) unfolding lower_def by (auto intro: map_idI)
qed

lemma lower_strip_lower: "lower (strip (lower s)) = strip (lower s)"
  using lower_fixed_subset [OF lower_idem set_strip] .

lemma replace_no_match: "\<not> sublist k s \<Longrightarrow> replace k v s = s"
  by (induction s) (auto simp: sublist_Cons_right)

lemma replace_match_head: "k \<noteq> [] \<Longrightarrow> replace k v (k @ m) = v @ replace k v m"
  by (cases k) auto

lemma replace_first_match:
  assumes "k \<noteq> []" and "sublist k s"
  shows "\<exists>p m. s = p @ k @ m \<and> replace k v s = p @ v @ replace k v m"
  using assms(2)
proof (induction s)
  case Nil
  with assms(1) show ?case by simp
next
  case (Cons x xs)
  show ?case
  proof (cases "prefix k (x # xs)")
    case True
    then obtain m where m: "x # xs = k @ m" by (auto simp: prefix_def)
    then have "replace k v (x # xs) = v @ replace k v m"
      using assms(1) replace_match_head by metis
    with m show ?thesis by (metis append_Nil)
  next
    case False
    then have "sublist k xs" using Cons.prems by (simp add: sublist_Cons_right)
    then obtain p m where "xs = p @ k @ m" "replace k v xs = p @ v @ replace k v m"
      using Cons.IH by blast
    then have "x # xs = (x # p) @ k @ m \<and> replace k v (x # xs) = (x # p) @ v @ replace k v m"
      using False by simp
    then show ?thesis by blast
  qed
qed

lemma prefix_before_foreign:
  assumes "prefix k (a @ c # b)" and "c \<notin> set k"
  shows "prefix k a"
proof (rule ccontr)
  assume n: "\<not> prefix k a"
  from assms(1) have "prefix k a \<or> (\<exists>us. prefix us (c # b) \<and> k = a @ us)"
    unfolding prefix_append by blast
  with n obtain us where us: "prefix us (c # b)" "k = a @ us" by blast
  from n us(2) have "us \<noteq> []" by auto
  with us(1) have "c \<in> set us" by (cases us) auto
  with us(2) assms(2) show False by simp
qed

lemma replace_Cons_no_match:
  "\<not> (k \<noteq> [] \<and> prefix k (x # xs)) \<Longrightarrow> replace k v (x # xs) = x # replace k v xs"
  by auto

lemma replace_distrib:
  assumes "c \<notin> set k"
  shows "replace k v (a @ c # b) = replace k v a @ c # replace k v b"
proof (induction a rule: length_induct)
  case (1 a)
  note IH = 1
  show ?case
  proof (cases "k \<noteq> [] \<and> prefix k (a @ c # b)")
    case True
    then have k: "k \<noteq> []" and "prefix k (a @ c # b)" by blast+
    then have "prefix k a" using assms prefix_before_foreign [of k a c b] by blast
    then obtain a' where a: "a = k @ a'" unfolding prefix_def by blast
    then have "length a' < length a" using k by simp
    with IH have step: "replace k v (a' @ c # b) = replace k v a' @ c # replace k v b"
      by blast
    have "replace k v (k @ (a' @ c # b)) = v @ replace k v (a' @ c # b)"
      using k by (rule replace_match_head)
    moreover have "replace k v (k @ a') = v @ replace k v a'"
      using k by (rule replace_match_head)
    ultimately show ?thesis
      unfolding a by (simp only: step append_assoc)
  next
    case False
    show ?thesis
    proof (cases a)
      case Nil
      have "replace k v (c # b) = c # replace k v b"
        using False unfolding Nil append_Nil by (rule replace_Cons_no_match)
      then show ?thesis unfolding Nil by simp
    next
      case (Cons x a')
      then have "length a' < length a" by simp
      with IH have step: "replace k v (a' @ c # b) = replace k v a' @ c # replace k v b"
        by blast
      have "\<not> (k \<noteq> [] \<and> prefix k (x # (a' @ c # b)))"
        using False unfolding Cons by simp
      then have r1: "replace k v (x # (a' @ c # b)) = x # replace k v (a' @ c # b)"
        by (rule replace_Cons_no_match)
      have "\<not> (k \<noteq> [] \<and> prefix k (x # a'))"
        using False prefix_prefix [of k "x # a'" "c # b"] unfolding Cons by auto
      then have r2: "replace k v (x # a') = x # replace k v a'"
        by (rule replace_Cons_no_match)
      show ?thesis
        unfolding Cons by (simp only: append_Cons r1 r2 step)
    qed
  qed
qed

lemma append_split_at:
  assumes "v @ r = a' @ u # b'"
  shows "(\<exists>v2. v = a' @ u # v2 \<and> b' = v2 @ r) \<or> (\<exists>a''. a' = v @ a'' \<and> r = a'' @ u # b')"
proof -
  from assms obtain us where
    "(v = a' @ us \<and> us @ r = u # b') \<or> (v @ us = a' \<and> r = us @ u # b')"
    by (auto simp: append_eq_append_conv2)
  then show ?thesis
  proof
    assume h: "v = a' @ us \<and> us @ r = u # b'"
    show ?thesis
    proof (cases us)
      case Nil
      with h have "a' = v @ [] \<and> r = [] @ u # b'" by simp
      then show ?thesis by blast
    next
      case (Cons u' us')
      with h have "v = a' @ u # us' \<and> b' = us' @ r" by simp
      then show ?thesis by blast
    qed
  next
    assume "v @ us = a' \<and> r = us @ u # b'"
    then have "a' = v @ us \<and> r = us @ u # b'" by simp
    then show ?thesis by blast
  qed
qed

lemma replace_origin:
  assumes "u \<notin> set k"
  shows "replace k v s = a' @ u # b' \<Longrightarrow>
         (\<exists>a b. s = a @ u # b \<and> a' = replace k v a \<and> b' = replace k v b) \<or>
         (\<exists>p m v1 v2. v = v1 @ u # v2 \<and> a' = p @ v1 \<and> b' = v2 @ m)"
  using assms
proof (induction k v s arbitrary: a' rule: replace.induct)
  case (1 old new)
  then show ?case by simp
next
  case (2 old new c cs)
  show ?case
  proof (cases "old \<noteq> [] \<and> prefix old (c # cs)")
    case True
    let ?rest = "drop (length old - 1) cs"
    have eq: "new @ replace old new ?rest = a' @ u # b'"
      using True "2.prems"(1) by simp
    have s: "c # cs = old @ ?rest"
      using True by (cases old) (auto simp: prefix_def)
    from append_split_at [OF eq] show ?thesis
    proof
      assume "\<exists>v2. new = a' @ u # v2 \<and> b' = v2 @ replace old new ?rest"
      then obtain v2 where "new = a' @ u # v2 \<and> a' = [] @ a' \<and> b' = v2 @ replace old new ?rest"
        by auto
      then show ?thesis by blast
    next
      assume "\<exists>a''. a' = new @ a'' \<and> replace old new ?rest = a'' @ u # b'"
      then obtain a'' where a'': "a' = new @ a''" "replace old new ?rest = a'' @ u # b'"
        by blast
      from "2.IH"(1) [OF True a''(2) "2.prems"(2)] show ?thesis
      proof
        assume "\<exists>a b. ?rest = a @ u # b \<and> a'' = replace old new a \<and> b' = replace old new b"
        then obtain a b where ab: "?rest = a @ u # b" "a'' = replace old new a"
          "b' = replace old new b" by blast
        have "replace old new (old @ a) = new @ replace old new a"
          using True by (intro replace_match_head) simp
        then have "c # cs = (old @ a) @ u # b \<and> a' = replace old new (old @ a)
            \<and> b' = replace old new b"
          using s ab a''(1) by simp
        then show ?thesis by blast
      next
        assume "\<exists>p m v1 v2. new = v1 @ u # v2 \<and> a'' = p @ v1 \<and> b' = v2 @ m"
        then obtain p m v1 v2 where "new = v1 @ u # v2" "a'' = p @ v1" "b' = v2 @ m" by blast
        then have "new = v1 @ u # v2 \<and> a' = (new @ p) @ v1 \<and> b' = v2 @ m"
          using a''(1) by simp
        then show ?thesis by blast
      qed
    qed
  next
    case False
    then have eq: "c # replace old new cs = a' @ u # b'"
      using "2.prems"(1) by auto
    show ?thesis
    proof (cases a')
      case Nil
      with eq have "c # cs = [] @ u # cs \<and> a' = replace old new [] \<and> b' = replace old new cs"
        by simp
      then show ?thesis by blast
    next
      case (Cons y a'')
      with eq have r: "replace old new cs = a'' @ u # b'" and y: "y = c" by simp_all
      from "2.IH"(2) [OF False r "2.prems"(2)] show ?thesis
      proof
        assume "\<exists>a b. cs = a @ u # b \<and> a'' = replace old new a \<and> b' = replace old new b"
        then obtain a b where ab: "cs = a @ u # b" "a'' = replace old new a"
          "b' = replace old new b" by blast
        have "\<not> (old \<noteq> [] \<and> prefix old (c # a))"
          using False prefix_prefix [of old "c # a" "u # b"] unfolding ab(1) by auto
        then have "replace old new (c # a) = c # replace old new a"
          by (rule replace_Cons_no_match)
        then have "c # cs = (c # a) @ u # b \<and> a' = replace old new (c # a)
            \<and> b' = replace old new b"
          using ab Cons y by simp
        then show ?thesis by blast
      next
        assume "\<exists>p m v1 v2. new = v1 @ u # v2 \<and> a'' = p @ v1 \<and> b' = v2 @ m"
        then obtain p m v1 v2 where "new = v1 @ u # v2" "a'' = p @ v1" "b' = v2 @ m" by blast
        then have "new = v1 @ u # v2 \<and> a' = (c # p) @ v1 \<and> b' = v2 @ m"
          using Cons y by simp
        then show ?thesis by blast
      qed
    qed
  qed
qed

lemma is_space_iff: "is_space c \<longleftrightarrow> (9 \<le> (of_char c :: nat) \<and> (of_char c :: nat) \<le> 13) \<or> (28 \<le> (of_char c :: nat) \<and> (of_char c :: nat) \<le> 32)"
  by (simp add: is_space_def Let_def)

lemma upper_not_space: "is_upper c \<Longrightarrow> \<not> is_space c"
  by (auto simp: is_upper_iff is_space_iff)

lemma is_space_lower_char: "is_space (lower_char c) = is_space c"
  by (auto simp: is_space_iff [of "lower_char c"] of_char_lower_char is_upper_iff is_space_iff)

lemma is_space_upper_char: "is_space (upper_char c) = is_space c"
  by (auto simp: is_space_iff [of "upper_char c"] of_char_upper_char is_lower_iff is_space_iff)

lemma split_ws_word:
  assumes "w \<in> set (split_ws s)"
  shows "\<exists>x y. s = x @ w @ y \<and> (x = [] \<or> is_space (last x)) \<and> (y = [] \<or> is_space (hd y))
           \<and> w \<noteq> [] \<and> (\<forall>c \<in> set w. \<not> is_space c)"
  using assms
proof (induction s rule: split_ws.induct)
  case 1
  then show ?case by simp
next
  case (2 c cs)
  let ?P = "\<lambda>d. \<not> is_space d"
  show ?case
  proof (cases "is_space c")
    case True
    with 2 obtain x y where xy: "cs = x @ w @ y" "x = [] \<or> is_space (last x)"
      "y = [] \<or> is_space (hd y)" "w \<noteq> []" "\<forall>c \<in> set w. \<not> is_space c"
      by auto
    then have "c # cs = (c # x) @ w @ y \<and> (c # x = [] \<or> is_space (last (c # x)))"
      using True by auto
    with xy show ?thesis by blast
  next
    case False
    let ?y = "dropWhile ?P cs"
    have hd: "?y = [] \<or> is_space (hd ?y)"
      using hd_dropWhile [of ?P cs] by auto
    from 2(3) False consider "w = c # takeWhile ?P cs" | "w \<in> set (split_ws ?y)"
      by auto
    then show ?thesis
    proof cases
      case 1
      then have "c # cs = [] @ w @ ?y" by simp
      moreover have "w \<noteq> []" "\<forall>c \<in> set w. \<not> is_space c"
        using 1 False by (auto dest: set_takeWhileD)
      ultimately show ?thesis using hd by blast
    next
      case 2
      with "2.IH"(2) [OF False] obtain x y where xy: "?y = x @ w @ y" "x = [] \<or> is_space (last x)"
        "y = [] \<or> is_space (hd y)" "w \<noteq> []" "\<forall>c \<in> set w. \<not> is_space c"
        by blast
      have "x \<noteq> []"
      proof
        assume "x = []"
        with xy(1,4) have "?y \<noteq> []" "hd ?y = hd w" by auto
        with hd xy(4,5) show False by (cases w) auto
      qed
      with xy(2) have "is_space (last ((c # takeWhile ?P cs) @ x))" by simp
      moreover have "c # cs = ((c # takeWhile ?P cs) @ x) @ w @ y"
        using xy(1) takeWhile_dropWhile_id [of ?P cs] by (metis append_Cons append_assoc)
      ultimately show ?thesis using xy(3,4,5) by blast
    qed
  qed
qed

lemma concat_split_ws: "concat (split_ws s) = filter (\<lambda>c. \<not> is_space c) s"
proof (induction s rule: split_ws.induct)
  case 1
  then show ?case by simp
next
  case (2 c cs)
  let ?P = "\<lambda>d. \<not> is_space d"
  show ?case
  proof (cases "is_space c")
    case True
    with 2 show ?thesis by simp
  next
    case False
    have "filter ?P cs = filter ?P (takeWhile ?P cs @ dropWhile ?P cs)" by simp
    also have "\<dots> = takeWhile ?P cs @ filter ?P (dropWhile ?P cs)"
      unfolding filter_append by (auto simp: filter_id_conv dest: set_takeWhileD)
    finally show ?thesis using False "2.IH"(2) by simp
  qed
qed

lemma split_ws_append_word:
  assumes "w \<noteq> []" and "\<forall>c \<in> set w. \<not> is_space c" and "rest = [] \<or> is_space (hd rest)"
  shows "split_ws (w @ rest) = w # split_ws rest"
proof -
  let ?P = "\<lambda>d. \<not> is_space d"
  obtain c w' where w: "w = c # w'" using assms(1) by (cases w) auto
  have r: "takeWhile ?P rest = []" "dropWhile ?P rest = rest"
    using assms(3) by (cases rest; auto)+
  have "takeWhile ?P (w' @ rest) = w'" "dropWhile ?P (w' @ rest) = rest"
    using assms(2) w r by (simp_all add: takeWhile_append2 dropWhile_append2)
  then show ?thesis using w assms(2) by simp
qed

lemma space_is_space: "is_space (CHR '' '')"
  by code_simp

lemma split_ws_join:
  assumes "\<forall>w \<in> set ws. w \<noteq> [] \<and> (\<forall>c \<in> set w. \<not> is_space c)"
  shows "split_ws (join '' '' ws) = ws"
  using assms
proof (induction "'' ''" ws rule: join.induct)
  case 1
  then show ?case by simp
next
  case (2 x)
  then show ?case using split_ws_append_word [of x "[]"] by simp
next
  case (3 x y ys)
  then have "split_ws (join '' '' (y # ys)) = y # ys" by simp
  moreover have "split_ws (x @ ('' '' @ join '' '' (y # ys)))
      = x # split_ws ('' '' @ join '' '' (y # ys))"
    using 3(2) space_is_space by (intro split_ws_append_word) simp_all
  ultimately show ?case using space_is_space by simp
qed

lemma filter_join:
  assumes "\<forall>w \<in> set ws. \<forall>c \<in> set w. \<not> is_space c"
  shows "filter (\<lambda>c. \<not> is_space c) (join '' '' ws) = concat ws"
  using assms
proof (induction "'' ''" ws rule: join.induct)
  case 1
  then show ?case by simp
next
  case (2 x)
  then show ?case by (simp add: filter_id_conv)
next
  case (3 x y ys)
  then show ?case using space_is_space by (simp add: filter_id_conv)
qed

lemma lower_join: "lower (join sep ws) = join (lower sep) (map lower ws)"
  by (induction sep ws rule: join.induct) (simp_all add: lower_def)

lemma lower_space: "lower '' '' = '' ''"
  by code_simp

lemma lower_filter_space: "lower (filter (\<lambda>c. \<not> is_space c) s) = filter (\<lambda>c. \<not> is_space c) (lower s)"
  by (induction s) (simp_all add: lower_def is_space_lower_char)

lemma strip_ends:
  "strip x = [] \<or> (\<not> is_space (hd (strip x)) \<and> \<not> is_space (last (strip x)))"
proof -
  let ?a = "dropWhile is_space x"
  let ?y = "dropWhile is_space (rev ?a)"
  have s: "strip x = rev ?y" by (simp add: strip_def)
  show ?thesis
  proof (cases "?y = []")
    case True
    with s show ?thesis by simp
  next
    case False
    then have 1: "\<not> is_space (hd ?y)" using hd_dropWhile by blast
    have "suffix ?y (rev ?a)" by (rule suffix_dropWhile)
    then obtain zs where "rev ?a = zs @ ?y" by (auto simp: suffix_def)
    then have "last (rev ?a) = last ?y" using False by (metis last_appendR)
    then have "last ?y = last (rev ?a)" by simp
    moreover have a: "?a \<noteq> []"
    proof
      assume "?a = []"
      then have "?y = []" by (simp only: rev.simps dropWhile.simps)
      with False show False by simp
    qed
    ultimately have "last ?y = hd ?a" by (simp add: last_rev)
    moreover have "\<not> is_space (hd ?a)" using a hd_dropWhile by blast
    ultimately show ?thesis using s 1 False by (simp add: hd_rev last_rev)
  qed
qed

section \<open>What the substring replacement preserves\<close>

lemma mappings_shape:
  "list_all (\<lambda>(k, v). 2 \<le> length k \<and> list_all (\<lambda>c. \<not> is_upper c) k \<and> vstart v
      \<and> list_ex is_upper v) name_mappings"
  by code_simp

lemma contexts_shape:
  "list_all (\<lambda>(pre, u, tail). length pre \<le> 1 \<and> list_all is_upper pre
      \<and> list_all (\<lambda>c. \<not> is_space c) tail
      \<and> list_all (\<lambda>w. \<not> sublist (lower (pre @ u # tail)) w) lowercase_words) label_contexts"
  by code_simp

lemma vstart_append: "vstart r \<Longrightarrow> vstart (r @ x)"
  by (auto simp: vstart_def split: list.splits)

lemma vstart_replace:
  assumes "vstart r" and "\<forall>c \<in> set k. \<not> is_upper c" and "2 \<le> length k"
  shows "vstart (replace k v r)"
proof -
  from assms(1) obtain c r' where r: "r = c # r'" by (cases r) (auto simp: vstart_def)
  show ?thesis
  proof (cases "is_upper c")
    case True
    then have "\<not> (k \<noteq> [] \<and> prefix k (c # r'))"
      using assms(2) by (cases k) auto
    then have "replace k v r = c # replace k v r'"
      unfolding r by (rule replace_Cons_no_match)
    with True show ?thesis by (simp add: vstart_def)
  next
    case False
    with assms(1) r obtain r'' where r': "c = CHR ''e''" "r' = CHR ''B'' # r''"
      by (auto simp: vstart_def split: list.splits)
    have B: "is_upper (CHR ''B'')" by code_simp
    obtain k1 k2 k' where k: "k = k1 # k2 # k'"
      using assms(3) by (cases k; cases "tl k") auto
    then have "\<not> is_upper k1" "\<not> is_upper k2" using assms(2) by auto
    then have n1: "\<not> (k \<noteq> [] \<and> prefix k (c # CHR ''B'' # r''))"
      and n2: "\<not> (k \<noteq> [] \<and> prefix k (CHR ''B'' # r''))"
      using k B by auto
    have "replace k v (c # CHR ''B'' # r'') = c # replace k v (CHR ''B'' # r'')"
      using n1 by (rule replace_Cons_no_match)
    moreover have "replace k v (CHR ''B'' # r'') = CHR ''B'' # replace k v r''"
      using n2 by (rule replace_Cons_no_match)
    ultimately show ?thesis unfolding r r'(2) using r'(1) by (simp add: vstart_def)
  qed
qed

lemma after_ok_replace:
  assumes "\<forall>c \<in> set k. \<not> is_upper c" and "2 \<le> length k" and "vstart v"
  shows "after_ok tail r \<Longrightarrow> after_ok tail (replace k v r)"
proof (induction tail arbitrary: r)
  case Nil
  then show ?case by simp
next
  case (Cons c tail)
  show ?case
  proof (cases "vstart r")
    case True
    then show ?thesis using vstart_replace assms by simp
  next
    case False
    with Cons.prems obtain r' where r: "r = c # r'" "after_ok tail r'"
      by (auto split: list.splits)
    show ?thesis
    proof (cases "k \<noteq> [] \<and> prefix k r")
      case True
      then have "replace k v r = v @ replace k v (drop (length k - 1) r')"
        using r(1) by simp
      then show ?thesis using assms(3) vstart_append by simp
    next
      case False
      then have "replace k v r = c # replace k v r'"
        unfolding r(1) by (rule replace_Cons_no_match)
      then show ?thesis using Cons.IH [OF r(2)] by simp
    qed
  qed
qed

lemma after_ok_prefix: "prefix tail r \<Longrightarrow> after_ok tail r"
  by (induction tail arbitrary: r) (auto simp: prefix_def)


lemma contexts_mem:
  assumes "is_upper u"
  shows "(upper_before (seen @ v1), u, takeWhile (\<lambda>d. \<not> is_space d) v2)
          \<in> set (contexts seen (v1 @ u # v2))"
proof (induction v1 arbitrary: seen)
  case Nil
  then show ?case using assms by simp
next
  case (Cons x v1)
  from Cons [of "seen @ [x]"] show ?case by simp
qed

lemma suffix_upper_before: "suffix (upper_before v1) (p @ v1)"
  by (cases v1 rule: rev_cases) (auto simp: upper_before_def suffix_def)

lemma suffix_replace:
  assumes "suffix pre a" and "length pre \<le> 1" and "list_all is_upper pre"
    and "\<forall>c \<in> set k. \<not> is_upper c"
  shows "suffix pre (replace k v a)"
proof (cases pre)
  case Nil
  then show ?thesis by simp
next
  case (Cons x xs)
  with assms(2,3) have pre: "pre = [x]" and x: "is_upper x" by simp_all
  with assms(1) obtain a0 where "a = a0 @ x # []" by (auto simp: suffix_def)
  moreover have "x \<notin> set k" using x assms(4) by blast
  ultimately have "replace k v a = replace k v a0 @ x # replace k v []"
    using replace_distrib by blast
  then show ?thesis using pre by (simp add: suffix_def)
qed

lemma protected_replace:
  assumes "protected s" and "(k, v) \<in> set name_mappings"
  shows "protected (replace k v s)"
  unfolding protected_def
proof (intro allI impI)
  fix a' u b'
  assume h: "replace k v s = a' @ u # b' \<and> is_upper u"
  have shape: "2 \<le> length k" "\<forall>c \<in> set k. \<not> is_upper c" "vstart v"
    using assms(2) mappings_shape by (auto simp: list_all_iff)
  then have "u \<notin> set k" using h by blast
  from replace_origin [OF this, of v s a' b'] h
  consider (old) a b where "s = a @ u # b" "a' = replace k v a" "b' = replace k v b"
    | (new) p m v1 v2 where "v = v1 @ u # v2" "a' = p @ v1" "b' = v2 @ m"
    by blast
  then show "\<exists>(pre, u', tail) \<in> set label_contexts. u' = u \<and> suffix pre a' \<and> after_ok tail b'"
  proof cases
    case old
    with assms(1) h obtain pre tail where c: "(pre, u, tail) \<in> set label_contexts"
      "suffix pre a" "after_ok tail b"
      unfolding protected_def by blast
    then have "length pre \<le> 1" "list_all is_upper pre"
      using contexts_shape by (auto simp: list_all_iff)
    then have "suffix pre a'"
      unfolding old(2) using c(2) shape(2) suffix_replace by blast
    moreover have "after_ok tail b'"
      unfolding old(3) using shape c(3) after_ok_replace by blast
    ultimately show ?thesis using c(1) by blast
  next
    case new
    let ?pre = "upper_before v1"
    let ?tail = "takeWhile (\<lambda>d. \<not> is_space d) v2"
    have "(?pre, u, ?tail) \<in> set (contexts [] v)"
      unfolding new(1) using contexts_mem [of u "[]" v1 v2] h by simp
    then have "(?pre, u, ?tail) \<in> set label_contexts"
      using assms(2) unfolding label_contexts_def by force
    moreover have "suffix ?pre a'"
      unfolding new(2) by (rule suffix_upper_before)
    moreover have "prefix ?tail b'"
      unfolding new(3) by (metis prefixI takeWhile_dropWhile_id append_assoc)
    then have "after_ok ?tail b'" by (rule after_ok_prefix)
    ultimately show ?thesis by blast
  qed
qed

lemma protected_no_upper: "\<forall>c \<in> set s. \<not> is_upper c \<Longrightarrow> protected s"
  unfolding protected_def by auto

lemma protected_replace_pattern:
  "protected s \<Longrightarrow> item \<in> set name_mappings \<Longrightarrow> protected (replace_pattern s item)"
  using protected_replace by (cases item) (auto simp: replace_pattern_def)

lemma protected_foldl:
  "protected s \<Longrightarrow> set items \<subseteq> set name_mappings \<Longrightarrow> protected (foldl replace_pattern s items)"
  by (induction items arbitrary: s) (auto simp: protected_replace_pattern)

lemma no_upper_lower_id: "\<forall>c \<in> set w. \<not> is_upper c \<Longrightarrow> lower w = w"
  unfolding lower_def by (induction w) (auto simp: lower_char_def)

lemma no_vstart_word_rest:
  assumes "\<forall>c \<in> set w1. \<not> is_upper c" and "y = [] \<or> is_space (hd y)"
  shows "\<not> vstart (w1 @ y)"
proof -
  have B: "is_upper (CHR ''B'')" and e: "\<not> is_space (CHR ''e'')" by code_simp+
  show ?thesis
  proof (cases w1)
    case Nil
    then show ?thesis
      using assms(2) upper_not_space e by (cases y) (auto simp: vstart_def)
  next
    case (Cons d w1')
    show ?thesis
    proof (cases w1')
      case Nil
      then show ?thesis
        using Cons assms upper_not_space [OF B] by (cases y) (auto simp: vstart_def)
    next
      case (Cons d' w1'')
      then show ?thesis
        using \<open>w1 = d # w1'\<close> assms(1) B by (auto simp: vstart_def)
    qed
  qed
qed

lemma after_ok_word_rest:
  assumes "\<forall>c \<in> set tail. \<not> is_space c" and "y = [] \<or> is_space (hd y)"
  shows "after_ok tail (w1 @ y) \<Longrightarrow> \<forall>c \<in> set w1. \<not> is_upper c \<Longrightarrow> prefix tail w1"
  using assms(1)
proof (induction tail arbitrary: w1)
  case Nil
  then show ?case by simp
next
  case (Cons c tail)
  have "\<not> vstart (w1 @ y)"
    using Cons.prems(2) assms(2) by (rule no_vstart_word_rest)
  with Cons.prems(1) obtain r' where r: "w1 @ y = c # r'" "after_ok tail r'"
    by (auto split: list.splits)
  have "w1 \<noteq> []"
  proof
    assume "w1 = []"
    with r(1) have "y \<noteq> []" "hd y = c" by auto
    with assms(2) Cons.prems(3) show False by auto
  qed
  then obtain w1' where w1: "w1 = c # w1'" "r' = w1' @ y"
    using r(1) by (cases w1) auto
  then have "prefix tail w1'"
    using Cons.IH [of w1'] r(2) Cons.prems(2,3) by simp
  with w1 show ?case by simp
qed

lemma protected_word:
  assumes "protected s" and "w \<in> set (split_ws s)" and "lower w \<in> set lowercase_words"
  shows "w \<in> set lowercase_words"
proof (cases "\<forall>c \<in> set w. \<not> is_upper c")
  case True
  then show ?thesis using assms(3) no_upper_lower_id by simp
next
  case False
  then obtain w0 u w1 where w: "w = w0 @ u # w1" "is_upper u" "\<forall>c \<in> set w1. \<not> is_upper c"
    using split_list_last_prop [of w is_upper] by auto
  from split_ws_word [OF assms(2)] obtain x y where xy: "s = x @ w @ y"
    "x = [] \<or> is_space (last x)" "y = [] \<or> is_space (hd y)" "\<forall>c \<in> set w. \<not> is_space c"
    by blast
  have "s = (x @ w0) @ u # (w1 @ y)" using xy(1) w(1) by simp
  with assms(1) w(2) obtain pre tail where c: "(pre, u, tail) \<in> set label_contexts"
    "suffix pre (x @ w0)" "after_ok tail (w1 @ y)"
    unfolding protected_def by blast
  then have shape: "length pre \<le> 1" "list_all is_upper pre" "\<forall>c \<in> set tail. \<not> is_space c"
    "\<forall>sw \<in> set lowercase_words. \<not> sublist (lower (pre @ u # tail)) sw"
    using contexts_shape by (auto simp: list_all_iff)
  have "prefix tail w1"
    using shape(3) xy(3) c(3) w(3) by (rule after_ok_word_rest)
  then obtain w1' where w1: "w1 = tail @ w1'" by (auto simp: prefix_def)
  have "suffix pre w0"
  proof (cases pre)
    case Nil
    then show ?thesis by simp
  next
    case (Cons p ps)
    with shape(1,2) have pre: "pre = [p]" and p: "is_upper p" by simp_all
    show ?thesis
    proof (cases w0 rule: rev_cases)
      case Nil
      with c(2) pre have "x \<noteq> []" "last x = p" by (auto simp: suffix_def)
      with xy(2) p upper_not_space show ?thesis by auto
    next
      case (snoc w0' q)
      with c(2) pre show ?thesis by (auto simp: suffix_def)
    qed
  qed
  then obtain w0' where w0: "w0 = w0' @ pre" by (auto simp: suffix_def)
  have "w = w0' @ (pre @ u # tail) @ w1'" using w(1) w0 w1 by simp
  then have "sublist (pre @ u # tail) w" by (auto simp: sublist_def)
  then have "sublist (lower (pre @ u # tail)) (lower w)"
    unfolding lower_def sublist_def by (metis map_append)
  with shape(4) assms(3) show ?thesis by blast
qed

lemma replace_has_upper:
  assumes "k \<noteq> []" and "sublist k s" and "list_ex is_upper v"
  shows "\<exists>c \<in> set (replace k v s). is_upper c"
proof -
  from replace_first_match [OF assms(1,2)] obtain p m where
    "replace k v s = p @ v @ replace k v m" by blast
  then show ?thesis using assms(3) by (auto simp: list_ex_iff)
qed

lemma cascade_cases:
  assumes "set items \<subseteq> set name_mappings"
  shows "((\<forall>(k, v) \<in> set items. \<not> sublist k n) \<and> foldl replace_pattern n items = n) \<or>
         (\<exists>k v s. (k, v) \<in> set items \<and> sublist k s \<and> foldl replace_pattern n items = replace k v s
            \<and> ((\<forall>c \<in> set s. \<not> is_upper c) \<longrightarrow> s = n))"
  using assms
proof (induction items rule: rev_induct)
  case Nil
  then show ?case by simp
next
  case (snoc item items)
  obtain k v where item: "item = (k, v)" by (cases item)
  let ?s = "foldl replace_pattern n items"
  have kv: "(k, v) \<in> set name_mappings" using snoc.prems item by simp
  then have shape: "k \<noteq> []" "list_ex is_upper v"
    using mappings_shape by (auto simp: list_all_iff)
  have IH: "((\<forall>(k, v) \<in> set items. \<not> sublist k n) \<and> ?s = n) \<or>
         (\<exists>k v s. (k, v) \<in> set items \<and> sublist k s \<and> ?s = replace k v s
            \<and> ((\<forall>c \<in> set s. \<not> is_upper c) \<longrightarrow> s = n))"
    using snoc by simp
  show ?case
  proof (cases "sublist k ?s")
    case True
    then have res: "foldl replace_pattern n (items @ [item]) = replace k v ?s"
      by (simp add: item replace_pattern_def)
    have "(\<forall>c \<in> set ?s. \<not> is_upper c) \<longrightarrow> ?s = n"
    proof
      assume no: "\<forall>c \<in> set ?s. \<not> is_upper c"
      from IH show "?s = n"
      proof
        assume "(\<forall>(k, v) \<in> set items. \<not> sublist k n) \<and> ?s = n"
        then show ?thesis by simp
      next
        assume "\<exists>k v s. (k, v) \<in> set items \<and> sublist k s \<and> ?s = replace k v s
            \<and> ((\<forall>c \<in> set s. \<not> is_upper c) \<longrightarrow> s = n)"
        then obtain k' v' s' where h: "(k', v') \<in> set items" "sublist k' s'"
          "?s = replace k' v' s'" by blast
        then have "(k', v') \<in> set name_mappings" using snoc.prems by auto
        then have "k' \<noteq> []" "list_ex is_upper v'"
          using mappings_shape by (auto simp: list_all_iff)
        then have "\<exists>c \<in> set (replace k' v' s'). is_upper c"
          using h(2) replace_has_upper by blast
        with no h(3) show ?thesis by simp
      qed
    qed
    with True res item have "(k, v) \<in> set (items @ [item]) \<and> sublist k ?s \<and>
        foldl replace_pattern n (items @ [item]) = replace k v ?s \<and>
        ((\<forall>c \<in> set ?s. \<not> is_upper c) \<longrightarrow> ?s = n)"
      by simp
    then show ?thesis by blast
  next
    case False
    then have res: "foldl replace_pattern n (items @ [item]) = ?s"
      by (simp add: item replace_pattern_def)
    from IH show ?thesis
    proof
      assume a: "(\<forall>(k, v) \<in> set items. \<not> sublist k n) \<and> ?s = n"
      with False have "\<forall>(k, v) \<in> set (items @ [item]). \<not> sublist k n"
        using item by auto
      with a res show ?thesis by simp
    next
      assume "\<exists>k v s. (k, v) \<in> set items \<and> sublist k s \<and> ?s = replace k v s
            \<and> ((\<forall>c \<in> set s. \<not> is_upper c) \<longrightarrow> s = n)"
      then obtain k' v' s' where "(k', v') \<in> set (items @ [item])" "sublist k' s'"
        "foldl replace_pattern n (items @ [item]) = replace k' v' s'"
        "(\<forall>c \<in> set s'. \<not> is_upper c) \<longrightarrow> s' = n"
        using res by auto
      then show ?thesis by blast
    qed
  qed
qed

section \<open>No two results of the normalizers differ in case only\<close>

lemma lowercase_words_lower: "list_all (\<lambda>w. lower w = w) lowercase_words"
  by code_simp

lemma upper_char_lower_char: "upper_char (lower_char c) = upper_char c"
proof (cases "is_upper c")
  case True
  then have l: "is_lower (lower_char c)"
    unfolding is_lower_iff [of "lower_char c"] of_char_lower_char is_upper_iff by auto
  have "\<not> is_lower c" using True by (simp add: is_upper_iff is_lower_iff)
  then have "upper_char c = c" by (simp add: upper_char_def)
  moreover have "(of_char (upper_char (lower_char c)) :: nat) = of_char c"
    using l True by (simp add: of_char_lower_char of_char_upper_char)
  then have "upper_char (lower_char c) = c"
    by (simp only: of_char_eq_iff)
  ultimately show ?thesis by simp
next
  case False
  then show ?thesis by (simp add: lower_char_def)
qed

lemma lower_capitalize: "lower (capitalize w) = lower w"
  by (cases w) (simp_all add: lower_def lower_char_upper_char lower_char_idem)

lemma lower_capitalize_word: "lower (capitalize_word w) = lower w"
  by (simp add: capitalize_word_def lower_capitalize)

lemma capitalize_cong:
  assumes "lower w1 = lower w2"
  shows "capitalize w1 = capitalize w2"
proof (cases w1)
  case Nil
  with assms show ?thesis by (simp add: lower_def)
next
  case (Cons c cs)
  with assms obtain d ds where w2: "w2 = d # ds" by (cases w2) (auto simp: lower_def)
  with assms Cons have "lower_char c = lower_char d" "lower cs = lower ds"
    by (simp_all add: lower_def)
  then have "upper_char c = upper_char d"
    using upper_char_lower_char [of c] upper_char_lower_char [of d] by simp
  with \<open>lower cs = lower ds\<close> Cons w2 show ?thesis by simp
qed

lemma capitalize_word_cong:
  assumes "lower w1 = lower w2"
    and "lower w1 \<in> set lowercase_words \<longrightarrow> w1 \<in> set lowercase_words"
    and "lower w2 \<in> set lowercase_words \<longrightarrow> w2 \<in> set lowercase_words"
  shows "capitalize_word w1 = capitalize_word w2"
proof -
  have fixed: "lower w = w" if "w \<in> set lowercase_words" for w
    using that lowercase_words_lower unfolding list_all_iff by blast
  have same: "w1 = w2" if "w1 \<in> set lowercase_words" "w2 \<in> set lowercase_words"
  proof -
    have "w1 = lower w1" using that(1) fixed by metis
    also have "\<dots> = lower w2" by (rule assms(1))
    also have "\<dots> = w2" using that(2) fixed by metis
    finally show ?thesis .
  qed
  have both: "w1 \<in> set lowercase_words \<longleftrightarrow> w2 \<in> set lowercase_words"
  proof
    assume h: "w1 \<in> set lowercase_words"
    then have "lower w1 \<in> set lowercase_words" using fixed by metis
    then have "lower w2 \<in> set lowercase_words" unfolding assms(1) .
    with assms(3) show "w2 \<in> set lowercase_words" by blast
  next
    assume h: "w2 \<in> set lowercase_words"
    then have "lower w2 \<in> set lowercase_words" using fixed by metis
    then have "lower w1 \<in> set lowercase_words" unfolding assms(1) .
    with assms(2) show "w1 \<in> set lowercase_words" by blast
  qed
  show ?thesis
  proof (cases "w1 \<in> set lowercase_words")
    case True
    with both same show ?thesis by blast
  next
    case False
    with both have "w2 \<notin> set lowercase_words" by blast
    with False show ?thesis
      unfolding capitalize_word_def using capitalize_cong [OF assms(1)] by simp
  qed
qed

lemma lower_fallback: "lower (fallback ws) = join '' '' (map lower ws)"
  by (simp add: fallback_def lower_join lower_space lower_capitalize_word comp_def)

lemma lower_word_plain:
  "w \<noteq> [] \<and> (\<forall>c \<in> set w. \<not> is_space c) \<Longrightarrow>
   lower w \<noteq> [] \<and> (\<forall>c \<in> set (lower w). \<not> is_space c)"
  by (auto simp: lower_def is_space_lower_char)

lemma split_ws_lower_fallback:
  assumes "\<forall>w \<in> set ws. word_ok w"
  shows "split_ws (lower (fallback ws)) = map lower ws"
  unfolding lower_fallback
  using assms lower_word_plain by (intro split_ws_join) (auto simp: word_ok_def)

lemma capitalize_words_cong:
  "map lower ws1 = map lower ws2 \<Longrightarrow> \<forall>w \<in> set ws1. word_ok w \<Longrightarrow> \<forall>w \<in> set ws2. word_ok w \<Longrightarrow>
   map capitalize_word ws1 = map capitalize_word ws2"
proof (induction ws1 arbitrary: ws2)
  case Nil
  then show ?case by simp
next
  case (Cons w ws1)
  then obtain w' ws2' where ws2: "ws2 = w' # ws2'" by (cases ws2) auto
  have eq: "lower w = lower w'" "map lower ws1 = map lower ws2'"
    using Cons.prems(1) unfolding ws2 by simp_all
  have ok: "word_ok w" "word_ok w'" "\<forall>w \<in> set ws1. word_ok w" "\<forall>w \<in> set ws2'. word_ok w"
    using Cons.prems(2,3) unfolding ws2 by simp_all
  have "capitalize_word w = capitalize_word w'"
    using eq(1) ok(1,2) unfolding word_ok_def by (intro capitalize_word_cong) blast+
  moreover have "map capitalize_word ws1 = map capitalize_word ws2'"
    using eq(2) ok(3,4) by (rule Cons.IH)
  ultimately show ?case unfolding ws2 by simp
qed

lemma fallback_inj:
  assumes "\<forall>w \<in> set ws1. word_ok w" and "\<forall>w \<in> set ws2. word_ok w"
    and "lower (fallback ws1) = lower (fallback ws2)"
  shows "fallback ws1 = fallback ws2"
proof -
  have "map lower ws1 = split_ws (lower (fallback ws1))"
    using assms(1) by (simp only: split_ws_lower_fallback)
  also have "\<dots> = map lower ws2"
    unfolding assms(3) using assms(2) by (simp only: split_ws_lower_fallback)
  finally have "map capitalize_word ws1 = map capitalize_word ws2"
    using assms(1,2) by (rule capitalize_words_cong)
  then show ?thesis by (simp only: fallback_def)
qed

lemma label_rows_eq:
  "map (\<lambda>l. (l, nospace (lower l), split_ws (lower l))) labels = label_rows"
  by code_simp

lemma label_rows_distinct: "distinct (map (\<lambda>(l, ll, ws). ll) label_rows)"
  by code_simp

lemma label_rows_check:
  "list_all (\<lambda>(l, ll, ws).
       if fallback ws = l then True
       else list_ex (\<lambda>w. w \<in> set (map fst name_mappings)) ws \<and>
            list_all (\<lambda>(v, lv, vs). sublist lv ll \<longrightarrow> v = l) label_rows)
     label_rows"
  by code_simp

lemma label_row:
  assumes "l \<in> set labels"
  shows "(l, nospace (lower l), split_ws (lower l)) \<in> set label_rows"
proof -
  have "(l, nospace (lower l), split_ws (lower l))
      \<in> set (map (\<lambda>l. (l, nospace (lower l), split_ws (lower l))) labels)"
    using assms by simp
  then show ?thesis unfolding label_rows_eq .
qed

lemma labels_case_distinct:
  assumes "l1 \<in> set labels" and "l2 \<in> set labels" and "lower l1 = lower l2"
  shows "l1 = l2"
proof -
  have "map (\<lambda>(l, ll, ws). ll) label_rows = map (\<lambda>l. nospace (lower l)) labels"
    unfolding label_rows_eq [symmetric] by simp
  then have "distinct (map (\<lambda>l. nospace (lower l)) labels)"
    using label_rows_distinct by simp
  then have "inj_on (\<lambda>l. nospace (lower l)) (set labels)"
    by (simp only: distinct_map)
  moreover have "nospace (lower l1) = nospace (lower l2)" using assms(3) by simp
  ultimately show ?thesis using assms(1,2) by (blast dest: inj_onD)
qed

lemma labels_capitalized_or_apart:
  assumes "l \<in> set labels" and "fallback (split_ws (lower l)) \<noteq> l"
  shows "list_ex (\<lambda>w. w \<in> set (map fst name_mappings)) (split_ws (lower l))"
    and "v \<in> set labels \<Longrightarrow> sublist (nospace (lower v)) (nospace (lower l)) \<Longrightarrow> v = l"
proof -
  have row: "list_ex (\<lambda>w. w \<in> set (map fst name_mappings)) (split_ws (lower l)) \<and>
      list_all (\<lambda>(v, lv, vs). sublist lv (nospace (lower l)) \<longrightarrow> v = l) label_rows"
    using label_rows_check label_row [OF assms(1)] assms(2)
    unfolding list_all_iff [of _ label_rows] by fastforce
  then show "list_ex (\<lambda>w. w \<in> set (map fst name_mappings)) (split_ws (lower l))" by blast
  show "v = l" if "v \<in> set labels" "sublist (nospace (lower v)) (nospace (lower l))"
    using row label_row [OF that(1)] that(2) unfolding list_all_iff by fastforce
qed

lemma no_upper_lower: "\<forall>c \<in> set (lower s). \<not> is_upper c"
  by (auto simp: lower_def not_upper_lower_char)

lemma no_upper_strip_lower: "\<forall>c \<in> set (strip (lower x)). \<not> is_upper c"
  using no_upper_lower set_strip by blast

lemma split_ws_sublist: "w \<in> set (split_ws s) \<Longrightarrow> sublist w s"
  using split_ws_word unfolding sublist_def by blast

lemma split_ws_plain:
  "w \<in> set (split_ws s) \<Longrightarrow> w \<noteq> [] \<and> (\<forall>c \<in> set w. \<not> is_space c)"
  using split_ws_word by blast

lemma word_ok_cascade:
  assumes "w \<in> set (split_ws (foldl replace_pattern (strip (lower x)) name_mappings))"
  shows "word_ok w"
proof -
  have "protected (strip (lower x))"
    using no_upper_strip_lower by (rule protected_no_upper)
  then have "protected (foldl replace_pattern (strip (lower x)) name_mappings)"
    by (rule protected_foldl) simp
  then have "lower w \<in> set lowercase_words \<longrightarrow> w \<in> set lowercase_words"
    using assms protected_word by blast
  then show ?thesis
    unfolding word_ok_def using split_ws_plain [OF assms] by blast
qed

lemma word_ok_lower_words:
  assumes "w \<in> set (split_ws (lower l))"
  shows "word_ok w"
proof -
  have "set w \<subseteq> set (lower l)"
    using split_ws_sublist [OF assms] by (rule set_mono_sublist)
  then have "\<forall>c \<in> set w. \<not> is_upper c" using no_upper_lower by blast
  then have "lower w = w" by (rule no_upper_lower_id)
  then show ?thesis
    unfolding word_ok_def using split_ws_plain [OF assms] by simp
qed

lemma standardize_cases:
  assumes "x \<noteq> []"
  shows "(\<exists>k. (k, standardize_integration_name x) \<in> set name_mappings) \<or>
         (map_of name_mappings (strip (lower x)) = None \<and>
          standardize_integration_name x
            = fallback (split_ws (foldl replace_pattern (strip (lower x)) name_mappings)))"
proof (cases "map_of name_mappings (strip (lower x))")
  case None
  then show ?thesis
    using assms by (simp add: standardize_integration_name_def fallback_def)
next
  case (Some v)
  then have "standardize_integration_name x = v"
    using assms by (simp add: standardize_integration_name_def)
  with Some show ?thesis using map_of_SomeD by fastforce
qed

lemma label_mem: "(k, l) \<in> set name_mappings \<Longrightarrow> l \<in> set labels"
  unfolding labels_def by force

lemma labels_inj:
  assumes "(k1, l1) \<in> set name_mappings" and "(k2, l2) \<in> set name_mappings"
    and "lower l1 = lower l2"
  shows "l1 = l2"
  using label_mem [OF assms(1)] label_mem [OF assms(2)] assms(3)
  by (rule labels_case_distinct)

lemma lower_concat: "lower (concat ws) = concat (map lower ws)"
  by (induction ws) (simp_all add: lower_def)

lemma lower_append: "lower (a @ b) = lower a @ lower b"
  by (simp add: lower_def)

lemma nospace_append: "nospace (a @ b) = nospace a @ nospace b"
  by (simp add: nospace_def)

lemma lower_nospace: "lower (nospace s) = nospace (lower s)"
  by (simp add: nospace_def lower_filter_space)

lemma all_space_no_upper: "nospace p = [] \<Longrightarrow> \<forall>c \<in> set p. is_space c \<and> \<not> is_upper c"
  unfolding nospace_def filter_empty_conv using upper_not_space by blast

lemma label_not_apart:
  assumes l: "(k0, l) \<in> set name_mappings"
    and none: "map_of name_mappings (strip (lower x)) = None"
    and eq: "lower (fallback (split_ws (foldl replace_pattern (strip (lower x)) name_mappings)))
             = lower l"
    and words: "list_ex (\<lambda>w. w \<in> set (map fst name_mappings)) (split_ws (lower l))"
    and apart: "list_all (\<lambda>v. sublist (nospace (lower v)) (nospace (lower l)) \<longrightarrow> v = l) labels"
  shows False
proof -
  let ?n = "strip (lower x)"
  let ?f = "foldl replace_pattern ?n name_mappings"
  have ok: "\<forall>w \<in> set (split_ws ?f). word_ok w" using word_ok_cascade by blast
  have w: "split_ws (lower l) = map lower (split_ws ?f)"
    using split_ws_lower_fallback [OF ok] unfolding eq .
  have "set name_mappings \<subseteq> set name_mappings" by simp
  from cascade_cases [OF this, of ?n]
  consider (unchanged) "\<forall>(k, v) \<in> set name_mappings. \<not> sublist k ?n" "?f = ?n"
    | (changed) k v s where "(k, v) \<in> set name_mappings" "sublist k s" "?f = replace k v s"
        "(\<forall>c \<in> set s. \<not> is_upper c) \<longrightarrow> s = ?n"
    by blast
  then show False
  proof cases
    case unchanged
    have "lower u = u" if "u \<in> set (split_ws ?n)" for u
    proof -
      have "set u \<subseteq> set ?n" using split_ws_sublist [OF that] by (rule set_mono_sublist)
      then have "\<forall>c \<in> set u. \<not> is_upper c" using no_upper_strip_lower by blast
      then show ?thesis by (rule no_upper_lower_id)
    qed
    then have "map lower (split_ws ?n) = split_ws ?n" by (simp add: map_idI)
    with w unchanged(2) have "split_ws (lower l) = split_ws ?n" by simp
    with words obtain u where u: "u \<in> set (split_ws ?n)" "u \<in> set (map fst name_mappings)"
      by (auto simp: list_ex_iff)
    then have "sublist u ?n" using split_ws_sublist by blast
    with u(2) unchanged(1) show False by auto
  next
    case changed
    have shape: "k \<noteq> []" "list_ex is_upper v" "\<forall>c \<in> set k. \<not> is_upper c"
      using changed(1) mappings_shape by (auto simp: list_all_iff)
    from replace_first_match [OF shape(1) changed(2), of v] obtain p m where
      pm: "s = p @ k @ m" "replace k v s = p @ v @ replace k v m" by blast
    let ?r = "replace k v m"
    have "nospace (lower l) = concat (split_ws (lower l))"
      by (simp add: nospace_def concat_split_ws)
    also have "\<dots> = lower (concat (split_ws ?f))"
      unfolding w by (simp only: lower_concat)
    also have "\<dots> = lower (nospace ?f)"
      by (simp add: nospace_def concat_split_ws)
    also have "\<dots> = lower (nospace p) @ nospace (lower v) @ lower (nospace ?r)"
      unfolding changed(3) pm(2) by (simp only: nospace_append lower_append lower_nospace)
    finally have split: "nospace (lower l)
        = lower (nospace p) @ nospace (lower v) @ lower (nospace ?r)" .
    then have "sublist (nospace (lower v)) (nospace (lower l))"
      unfolding sublist_def by blast
    moreover have "v \<in> set labels" using changed(1) by (rule label_mem)
    ultimately have v: "v = l" using apart by (auto simp: list_all_iff)
    have "length (nospace (lower l))
        = length (nospace p) + length (nospace (lower l)) + length (nospace ?r)"
      using arg_cong [OF split, of length] unfolding v by (simp add: lower_def)
    then have e: "nospace p = []" "nospace ?r = []" by simp_all
    have no_match: "\<not> sublist k m"
    proof
      assume "sublist k m"
      then have "\<exists>c \<in> set ?r. is_upper c"
        using shape(1,2) replace_has_upper by blast
      with all_space_no_upper [OF e(2)] show False by blast
    qed
    then have "?r = m" by (rule replace_no_match)
    with e(2) have m: "nospace m = []" by simp
    have "\<forall>c \<in> set s. \<not> is_upper c"
      unfolding pm(1) using all_space_no_upper [OF e(1)] all_space_no_upper [OF m] shape(3)
      by auto
    with changed(4) have n: "?n = p @ k @ m" using pm(1) by simp
    with shape(1) have ends: "\<not> is_space (hd ?n)" "\<not> is_space (last ?n)"
      using strip_ends [of "lower x"] by auto
    have "p = []"
    proof (rule ccontr)
      assume "p \<noteq> []"
      then have "hd ?n \<in> set p" unfolding n by simp
      with all_space_no_upper [OF e(1)] ends(1) show False by blast
    qed
    moreover have "m = []"
    proof (rule ccontr)
      assume "m \<noteq> []"
      then have "last ?n \<in> set m" unfolding n by simp
      with all_space_no_upper [OF m] ends(2) show False by blast
    qed
    ultimately have "?n = k" using n by simp
    then have "map_of name_mappings ?n \<noteq> None"
      using changed(1) by (metis map_of_eq_None_iff fst_conv image_eqI)
    with none show False by simp
  qed
qed

lemma fallback_equals_label:
  assumes l: "(k0, l) \<in> set name_mappings"
    and none: "map_of name_mappings (strip (lower x)) = None"
    and eq: "lower (fallback (split_ws (foldl replace_pattern (strip (lower x)) name_mappings)))
             = lower l"
  shows "fallback (split_ws (foldl replace_pattern (strip (lower x)) name_mappings)) = l"
proof (cases "fallback (split_ws (lower l)) = l")
  case True
  have "fallback (split_ws (foldl replace_pattern (strip (lower x)) name_mappings))
      = fallback (split_ws (lower l))"
  proof (rule fallback_inj)
    show "\<forall>w \<in> set (split_ws (foldl replace_pattern (strip (lower x)) name_mappings)). word_ok w"
      using word_ok_cascade by blast
    show "\<forall>w \<in> set (split_ws (lower l)). word_ok w"
      using word_ok_lower_words by blast
    show "lower (fallback (split_ws (foldl replace_pattern (strip (lower x)) name_mappings)))
        = lower (fallback (split_ws (lower l)))"
      unfolding True by (rule eq)
  qed
  with True show ?thesis by simp
next
  case False
  have mem: "l \<in> set labels" using l by (rule label_mem)
  have "list_ex (\<lambda>w. w \<in> set (map fst name_mappings)) (split_ws (lower l))"
    using mem False by (rule labels_capitalized_or_apart(1))
  moreover have
    "list_all (\<lambda>v. sublist (nospace (lower v)) (nospace (lower l)) \<longrightarrow> v = l) labels"
    unfolding list_all_iff using labels_capitalized_or_apart(2) [OF mem False] by blast
  ultimately show ?thesis using label_not_apart [OF l none eq] by blast
qed

lemma standardize_case_inj:
  assumes x: "standardize_integration_name x \<noteq> []" and y: "standardize_integration_name y \<noteq> []"
    and eq: "lower (standardize_integration_name x) = lower (standardize_integration_name y)"
  shows "standardize_integration_name x = standardize_integration_name y"
proof -
  have nx: "x \<noteq> []" and ny: "y \<noteq> []"
    using x y by (auto simp: standardize_integration_name_def)
  let ?fx = "fallback (split_ws (foldl replace_pattern (strip (lower x)) name_mappings))"
  let ?fy = "fallback (split_ws (foldl replace_pattern (strip (lower y)) name_mappings))"
  consider
    (labels) k1 k2 where "(k1, standardize_integration_name x) \<in> set name_mappings"
      "(k2, standardize_integration_name y) \<in> set name_mappings"
  | (label_fallback) k where "(k, standardize_integration_name x) \<in> set name_mappings"
      "map_of name_mappings (strip (lower y)) = None" "standardize_integration_name y = ?fy"
  | (fallback_label) k where "(k, standardize_integration_name y) \<in> set name_mappings"
      "map_of name_mappings (strip (lower x)) = None" "standardize_integration_name x = ?fx"
  | (fallbacks) "standardize_integration_name x = ?fx" "standardize_integration_name y = ?fy"
    using standardize_cases [OF nx] standardize_cases [OF ny] by blast
  then show ?thesis
  proof cases
    case labels
    then show ?thesis using eq by (rule labels_inj)
  next
    case label_fallback
    have "lower ?fy = lower (standardize_integration_name x)"
      using eq unfolding label_fallback(3) by simp
    with label_fallback(1,2) have "?fy = standardize_integration_name x"
      by (rule fallback_equals_label)
    then show ?thesis unfolding label_fallback(3) by simp
  next
    case fallback_label
    have "lower ?fx = lower (standardize_integration_name y)"
      using eq unfolding fallback_label(3) by simp
    with fallback_label(1,2) have "?fx = standardize_integration_name y"
      by (rule fallback_equals_label)
    then show ?thesis unfolding fallback_label(3) by simp
  next
    case fallbacks
    have "?fx = ?fy"
    proof (rule fallback_inj)
      show "\<forall>w \<in> set (split_ws (foldl replace_pattern (strip (lower x)) name_mappings)). word_ok w"
        using word_ok_cascade by blast
      show "\<forall>w \<in> set (split_ws (foldl replace_pattern (strip (lower y)) name_mappings)). word_ok w"
        using word_ok_cascade by blast
      show "lower ?fx = lower ?fy" using eq unfolding fallbacks .
    qed
    then show ?thesis unfolding fallbacks .
  qed
qed

lemma clean_labels_case_distinct:
  "distinct (map lower (remdups (map snd clean_name_mappings)))"
  by code_simp

lemma clean_labels_lower_keys:
  "list_all (\<lambda>v. lower v \<in> set (map fst clean_name_mappings))
     (remdups (map snd clean_name_mappings))"
  by code_simp

lemma clean_labels_inj:
  assumes "(k1, v1) \<in> set clean_name_mappings" and "(k2, v2) \<in> set clean_name_mappings"
    and "lower v1 = lower v2"
  shows "v1 = v2"
proof -
  have "inj_on lower (set (remdups (map snd clean_name_mappings)))"
    using clean_labels_case_distinct by (simp only: distinct_map)
  moreover have "v1 \<in> set (remdups (map snd clean_name_mappings))"
    "v2 \<in> set (remdups (map snd clean_name_mappings))"
    using assms(1,2) by force+
  ultimately show ?thesis using assms(3) by (blast dest: inj_onD)
qed

lemma clean_label_is_key:
  assumes "(k, v) \<in> set clean_name_mappings"
  shows "map_of clean_name_mappings (lower v) \<noteq> None"
proof -
  have "v \<in> set (remdups (map snd clean_name_mappings))"
    using assms by force
  then have "lower v \<in> set (map fst clean_name_mappings)"
    using clean_labels_lower_keys by (simp only: list_all_iff)
  then show ?thesis by (simp only: map_of_eq_None_iff) simp
qed

lemma clean_integration_name_cases:
  assumes "clean_integration_name x \<noteq> []"
  shows "(\<exists>k. (k, clean_integration_name x) \<in> set clean_name_mappings) \<or>
         (map_of clean_name_mappings (strip (lower x)) = None \<and>
          clean_integration_name x = title (strip (lower x)))"
proof (cases "map_of clean_name_mappings (strip (lower x))")
  case None
  then show ?thesis
    using assms by (auto simp: clean_integration_name_def Let_def split: if_splits)
next
  case (Some v)
  then have "clean_integration_name x = v"
    using assms by (auto simp: clean_integration_name_def Let_def split: if_splits)
  with Some show ?thesis using map_of_SomeD by fastforce
qed

lemma lower_title_strip: "lower (title (strip (lower x))) = strip (lower x)"
  by (simp add: lower_title lower_strip_lower)

lemma clean_label_not_title:
  assumes "(k, clean_integration_name a) \<in> set clean_name_mappings"
    and "map_of clean_name_mappings (strip (lower b)) = None"
    and "clean_integration_name b = title (strip (lower b))"
    and "lower (clean_integration_name a) = lower (clean_integration_name b)"
  shows False
proof -
  have "map_of clean_name_mappings (lower (clean_integration_name a)) \<noteq> None"
    using assms(1) by (rule clean_label_is_key)
  moreover have "lower (clean_integration_name a) = strip (lower b)"
    using assms(3,4) by (simp add: lower_title_strip)
  ultimately show False using assms(2) by simp
qed

lemma clean_integration_name_case_inj:
  assumes x: "clean_integration_name x \<noteq> []" and y: "clean_integration_name y \<noteq> []"
    and eq: "lower (clean_integration_name x) = lower (clean_integration_name y)"
  shows "clean_integration_name x = clean_integration_name y"
proof -
  consider
    (labels) k1 k2 where "(k1, clean_integration_name x) \<in> set clean_name_mappings"
      "(k2, clean_integration_name y) \<in> set clean_name_mappings"
  | (label_title) k where "(k, clean_integration_name x) \<in> set clean_name_mappings"
      "map_of clean_name_mappings (strip (lower y)) = None"
      "clean_integration_name y = title (strip (lower y))"
  | (title_label) k where "(k, clean_integration_name y) \<in> set clean_name_mappings"
      "map_of clean_name_mappings (strip (lower x)) = None"
      "clean_integration_name x = title (strip (lower x))"
  | (titles) "clean_integration_name x = title (strip (lower x))"
      "clean_integration_name y = title (strip (lower y))"
    using clean_integration_name_cases [OF x] clean_integration_name_cases [OF y] by blast
  then show ?thesis
  proof cases
    case labels
    then show ?thesis using eq by (rule clean_labels_inj)
  next
    case label_title
    then show ?thesis using eq clean_label_not_title by blast
  next
    case title_label
    then show ?thesis using eq clean_label_not_title [of k y x] by simp
  next
    case titles
    then have "strip (lower x) = strip (lower y)"
      using eq by (simp add: lower_title_strip)
    with titles show ?thesis by simp
  qed
qed


text \<open>
  C7, as amended. The canonical integration set of an app record holds no empty string
  and no name twice, in each of the three builders: the list that
  \<open>load_integration_data\<close> makes of its set, the sorted list of
  \<open>process_integration_list\<close>, and the set of \<open>process_integrations.py\<close>. When the cells
  of the record are ASCII text, the lists of \<open>load_integration_data\<close> and of
  \<open>process_integration_list\<close> also hold no two names that are equal when case is ignored
  (compared in lower case). All of this holds whatever the order in which the Python
  sets yield their elements.
\<close>

theorem canonical_integrations_clean:
  assumes "enumerates enum"
  shows "[] \<notin> set (cleaned_integrations enum row) \<and>
         distinct (cleaned_integrations enum row) \<and>
         [] \<notin> set (process_integration_list enum cell) \<and>
         distinct (process_integration_list enum cell) \<and>
         [] \<notin> processed_integrations integrations \<and>
         (ascii_cell (app_details_col row) \<and> ascii_cell (integrations_col row) \<longrightarrow>
            (\<forall>a \<in> set (cleaned_integrations enum row).
               \<forall>b \<in> set (cleaned_integrations enum row). lower a = lower b \<longrightarrow> a = b)) \<and>
         (ascii_cell cell \<longrightarrow>
            (\<forall>a \<in> set (process_integration_list enum cell).
               \<forall>b \<in> set (process_integration_list enum cell).
                 lower a = lower b \<longrightarrow> a = b))"
proof -
  have cleaned: "set (cleaned_integrations enum row) =
     clean_integration_name `
       (set (parse_integrations (integrations_col row))
        \<union> set (extract_integrations (app_details_col row))) - {[]}"
    using assms by (rule set_cleaned_integrations)
  have 1: "[] \<notin> set (cleaned_integrations enum row)"
    unfolding cleaned by simp
  have 2: "distinct (cleaned_integrations enum row)"
    unfolding cleaned_integrations_def Let_def
    using assms by (rule enumerates_distinct) simp
  have 3: "\<forall>a \<in> set (cleaned_integrations enum row).
      \<forall>b \<in> set (cleaned_integrations enum row). lower a = lower b \<longrightarrow> a = b"
    unfolding cleaned using clean_integration_name_case_inj by auto
  let ?standardized = "\<lambda>integrations. filter (\<lambda>standardized. standardized \<noteq> [])
      (map standardize_integration_name
         (split_any (\<lambda>c. c = CHR '','' \<or> c = CHR ''|'') integrations))"
  have process: "\<exists>x. a = standardize_integration_name x \<and> a \<noteq> []"
    if "a \<in> set (process_integration_list enum cell)" for a
  proof (cases cell)
    case None
    with that show ?thesis by (simp add: process_integration_list_def)
  next
    case (Some integrations)
    have "set (enum (set (?standardized integrations))) = set (?standardized integrations)"
      using assms by (rule enumerates_set) simp
    with that show ?thesis
      unfolding process_integration_list_def Some by (auto split: if_splits)
  qed
  have 4: "[] \<notin> set (process_integration_list enum cell)"
    using process by blast
  have 5: "distinct (process_integration_list enum cell)"
  proof (cases cell)
    case None
    then show ?thesis by (simp add: process_integration_list_def)
  next
    case (Some integrations)
    have "distinct (enum (set (?standardized integrations)))"
      using assms by (rule enumerates_distinct) simp
    then show ?thesis
      unfolding process_integration_list_def Some by simp
  qed
  have 6: "\<forall>a \<in> set (process_integration_list enum cell).
      \<forall>b \<in> set (process_integration_list enum cell). lower a = lower b \<longrightarrow> a = b"
  proof (intro ballI impI)
    fix a b
    assume a: "a \<in> set (process_integration_list enum cell)"
      and b: "b \<in> set (process_integration_list enum cell)" and eq: "lower a = lower b"
    from process [OF a] obtain x where x: "a = standardize_integration_name x" "a \<noteq> []"
      by blast
    from process [OF b] obtain y where y: "b = standardize_integration_name y" "b \<noteq> []"
      by blast
    show "a = b"
      using x(2) y(2) eq unfolding x(1) y(1) by (rule standardize_case_inj)
  qed
  have 7: "[] \<notin> processed_integrations integrations"
    by (simp add: processed_integrations_def)
  from 1 2 4 5 7 have "[] \<notin> set (cleaned_integrations enum row) \<and>
         distinct (cleaned_integrations enum row) \<and>
         [] \<notin> set (process_integration_list enum cell) \<and>
         distinct (process_integration_list enum cell) \<and>
         [] \<notin> processed_integrations integrations"
    by simp
  with 3 6 show ?thesis by simp
qed

theorem canonical_integrations_clean_witness:
  "ascii_cell (app_details_col example_row) \<and> ascii_cell (integrations_col example_row) \<and>
   ascii_cell (Some ''fb,FACEBOOK|Stripe, ,pos x'') \<and>
   cleaned_integrations descending example_row = [''Stripe'', ''Klaviyo'', ''Facebook''] \<and>
   [] \<notin> set (cleaned_integrations descending example_row) \<and>
   distinct (cleaned_integrations descending example_row) \<and>
   inj_on lower (set (cleaned_integrations descending example_row)) \<and>
   process_integration_list descending (Some ''fb,FACEBOOK|Stripe, ,pos x'')
     = [''Facebook'', ''Shopify Pos X'', ''Stripe''] \<and>
   [] \<notin> set (process_integration_list descending (Some ''fb,FACEBOOK|Stripe, ,pos x'')) \<and>
   distinct (process_integration_list descending (Some ''fb,FACEBOOK|Stripe, ,pos x'')) \<and>
   inj_on lower (set (process_integration_list descending (Some ''fb,FACEBOOK|Stripe, ,pos x''))) \<and>
   [] \<notin> processed_integrations ''fb, ,pos x''"
proof -
  have ascii: "ascii_cell (app_details_col example_row)"
    "ascii_cell (integrations_col example_row)"
    "ascii_cell (Some ''fb,FACEBOOK|Stripe, ,pos x'')"
    by code_simp+
  have "cleaned_integrations descending example_row = [''Stripe'', ''Klaviyo'', ''Facebook'']"
    by code_simp
  moreover have "process_integration_list descending (Some ''fb,FACEBOOK|Stripe, ,pos x'')
     = [''Facebook'', ''Shopify Pos X'', ''Stripe'']"
    by code_simp
  moreover note ascii canonical_integrations_clean [OF enumerates_descending,
      of example_row "Some ''fb,FACEBOOK|Stripe, ,pos x''" "''fb, ,pos x''"]
  ultimately show ?thesis unfolding inj_on_def by blast
qed

text \<open>
  The normalizer of \<open>process_integrations.py\<close>, which writes the column the association
  analyzer reads, looks a name up before it joins the words again: the same two words
  with two blanks between them miss the table and are capitalized word by word. So
  its set for the ASCII cell \<open>tiktok shop,tiktok  shop\<close> holds two names that differ in
  case only.
\<close>

theorem processed_integrations_case_duplicate:
  "isascii ''tiktok shop,tiktok  shop'' \<and>
   ''TikTok Shop'' \<in> processed_integrations ''tiktok shop,tiktok  shop'' \<and>
   ''Tiktok Shop'' \<in> processed_integrations ''tiktok shop,tiktok  shop'' \<and>
   lower ''TikTok Shop'' = lower ''Tiktok Shop'' \<and>
   ''TikTok Shop'' \<noteq> ''Tiktok Shop'' \<and>
   process_integrations ascending (Some ''tiktok shop,tiktok  shop'')
     = ''TikTok Shop,Tiktok Shop''"
  by code_simp

end
